theory Spec2Isabelle
  imports Complex_Main "HOL-Library.Log_Nat"
begin

section \<open>The paginator of src/lib/paginator/paginator.ts\<close>

text \<open>
  A shallow embedding of the class \<^verbatim>\<open>MatPaginator\<close>: its fields are a record, each method
  is a function from the state before the call to the state after it, and the events
  sent on the \<^verbatim>\<open>page\<close> emitter are a list inside the state (oldest first).
\<close>

subsection \<open>JavaScript numbers\<close>

text \<open>
  The fields are JavaScript numbers, that is IEEE 754 binary64 values. A number is a
  finite value, negative zero, one of the two infinities, or NaN. \<open>Finite 0\<close> is the
  positive zero. The finite values of the numbers that arithmetic returns are the
  rationals \<open>m * 2 ^ k\<close> with \<open>m < 2 ^ 53\<close> and \<open>k \<ge> -1074\<close> below \<open>2 ^ 1024\<close>:
  every operation computes the exact result and rounds it to the nearest such value,
  ties to the even \<open>m\<close>, as IEEE 754 prescribes.
\<close>

datatype number = Finite rat | NegZero | PosInfinity | NegInfinity | NaN

text \<open>
  Rounding to nearest, ties to even. For \<open>x > 0\<close>, \<open>expo x\<close> is the exponent \<open>e\<close> with
  \<open>2 ^ e \<le> x < 2 ^ (e + 1)\<close>, found from the bit lengths of numerator and denominator.
  \<open>quantum x\<close> is the distance between neighbouring values around \<open>x\<close>: \<open>2 ^ (e - 52)\<close>,
  and \<open>2 ^ -1074\<close> in the subnormal range. A result of \<open>2 ^ 1024\<close> or more is an
  infinity, and a negative result that rounds to zero is the negative zero.
\<close>

definition expo :: "rat \<Rightarrow> int" where
  "expo x =
     (let (p, q) = quotient_of x; d = bitlen p - bitlen q
      in if power_int 2 d \<le> x then d else d - 1)"

definition round_half_even :: "rat \<Rightarrow> int" where
  "round_half_even x =
     (let f = \<lfloor>x\<rfloor>; d = x - of_int f
      in if d < 1 / 2 then f else if 1 / 2 < d then f + 1 else if even f then f else f + 1)"

definition quantum :: "rat \<Rightarrow> rat" where
  "quantum x = power_int 2 (max (expo x - 52) (- 1074))"

definition round_pos :: "rat \<Rightarrow> rat" where
  "round_pos x = of_int (round_half_even (x / quantum x)) * quantum x"

definition to_double :: "rat \<Rightarrow> number" where
  "to_double r =
     (if r = 0 then Finite 0
      else if 0 < r then
        (let v = round_pos r in if 2 ^ 1024 \<le> v then PosInfinity else Finite v)
      else
        (let v = round_pos (- r)
         in if 2 ^ 1024 \<le> v then NegInfinity else if v = 0 then NegZero else Finite (- v)))"

text \<open>
  A number whose finite value rounding leaves as it is: a value that a JavaScript number
  can hold.
\<close>

definition is_double :: "number \<Rightarrow> bool" where
  "is_double x = (case x of Finite r \<Rightarrow> to_double r = Finite r | _ \<Rightarrow> True)"

text \<open>The sign bit, the value of a finite number, and the zeros and infinities by sign.\<close>

fun sign_bit :: "number \<Rightarrow> bool" where
  "sign_bit (Finite a) = (a < 0)"
| "sign_bit NegZero = True"
| "sign_bit NegInfinity = True"
| "sign_bit _ = False"

fun value_of :: "number \<Rightarrow> rat" where
  "value_of (Finite a) = a"
| "value_of _ = 0"

definition is_infinite :: "number \<Rightarrow> bool" where
  "is_infinite x = (x = PosInfinity \<or> x = NegInfinity)"

definition is_zero :: "number \<Rightarrow> bool" where
  "is_zero x = (x = Finite 0 \<or> x = NegZero)"

definition signed_zero :: "bool \<Rightarrow> number" where
  "signed_zero negative = (if negative then NegZero else Finite 0)"

definition signed_infinity :: "bool \<Rightarrow> number" where
  "signed_infinity negative = (if negative then NegInfinity else PosInfinity)"

text \<open>\<^verbatim>\<open>-a\<close> on numbers.\<close>

fun num_neg :: "number \<Rightarrow> number" where
  "num_neg (Finite a) = (if a = 0 then NegZero else Finite (- a))"
| "num_neg NegZero = Finite 0"
| "num_neg PosInfinity = NegInfinity"
| "num_neg NegInfinity = PosInfinity"
| "num_neg NaN = NaN"

text \<open>
  \<^verbatim>\<open>a + b\<close> on numbers. Infinities of opposite sign add up to NaN. An exact sum of zero
  is the positive zero unless both operands are negative (zeros).
\<close>

definition num_add :: "number \<Rightarrow> number \<Rightarrow> number" where
  "num_add x y =
     (if x = NaN \<or> y = NaN then NaN
      else if is_infinite x then (if is_infinite y \<and> x \<noteq> y then NaN else x)
      else if is_infinite y then y
      else
        (let r = value_of x + value_of y
         in if r = 0 then signed_zero (sign_bit x \<and> sign_bit y) else to_double r))"

text \<open>\<^verbatim>\<open>a - b\<close> on numbers.\<close>

definition num_sub :: "number \<Rightarrow> number \<Rightarrow> number" where
  "num_sub a b = num_add a (num_neg b)"

text \<open>
  \<^verbatim>\<open>a * b\<close> on numbers. The sign of the result is the exclusive or of the signs;
  infinity times zero is NaN.
\<close>

definition num_mul :: "number \<Rightarrow> number \<Rightarrow> number" where
  "num_mul x y =
     (if x = NaN \<or> y = NaN then NaN
      else if is_infinite x \<or> is_infinite y then
        (if is_zero x \<or> is_zero y then NaN else signed_infinity (sign_bit x \<noteq> sign_bit y))
      else
        (let r = value_of x * value_of y
         in if r = 0 then signed_zero (sign_bit x \<noteq> sign_bit y) else to_double r))"

text \<open>
  \<^verbatim>\<open>a / b\<close> on numbers. A value that is not zero, over a zero, is the infinity whose
  sign is the exclusive or of the signs; zero over zero and infinity over infinity are
  NaN. Nothing fails.
\<close>

definition num_div :: "number \<Rightarrow> number \<Rightarrow> number" where
  "num_div x y =
     (if x = NaN \<or> y = NaN then NaN
      else if is_infinite x then
        (if is_infinite y then NaN else signed_infinity (sign_bit x \<noteq> sign_bit y))
      else if is_infinite y then signed_zero (sign_bit x \<noteq> sign_bit y)
      else if is_zero y then
        (if is_zero x then NaN else signed_infinity (sign_bit x \<noteq> sign_bit y))
      else
        (let r = value_of x / value_of y
         in if r = 0 then signed_zero (sign_bit x \<noteq> sign_bit y) else to_double r))"

text \<open>
  \<^verbatim>\<open>Math.floor\<close> and \<^verbatim>\<open>Math.ceil\<close>: the zeros, the infinities and NaN are returned as
  they are, and \<^verbatim>\<open>Math.ceil\<close> of a value in \<open>(-1, 0)\<close> is the negative zero.
\<close>

fun Math_floor :: "number \<Rightarrow> number" where
  "Math_floor (Finite a) = Finite (of_int \<lfloor>a\<rfloor>)"
| "Math_floor x = x"

fun Math_ceil :: "number \<Rightarrow> number" where
  "Math_ceil (Finite a) = (if a < 0 \<and> \<lceil>a\<rceil> = 0 then NegZero else Finite (of_int \<lceil>a\<rceil>))"
| "Math_ceil x = x"

text \<open>
  \<^verbatim>\<open>a < b\<close> and \<^verbatim>\<open>a >= b\<close>: every comparison with NaN is false, and the two zeros
  compare equal.
\<close>

fun num_lt :: "number \<Rightarrow> number \<Rightarrow> bool" where
  "num_lt NaN _ = False"
| "num_lt _ NaN = False"
| "num_lt PosInfinity _ = False"
| "num_lt _ NegInfinity = False"
| "num_lt NegInfinity _ = True"
| "num_lt _ PosInfinity = True"
| "num_lt x y = (value_of x < value_of y)"

definition num_ge :: "number \<Rightarrow> number \<Rightarrow> bool" where
  "num_ge a b = (a \<noteq> NaN \<and> b \<noteq> NaN \<and> \<not> num_lt a b)"

text \<open>
  \<^verbatim>\<open>a === b\<close> on numbers: NaN is equal to nothing, itself included, and the two zeros
  are equal.
\<close>

definition strict_eq :: "number \<Rightarrow> number \<Rightarrow> bool" where
  "strict_eq a b = (a \<noteq> NaN \<and> b \<noteq> NaN \<and> \<not> num_lt a b \<and> \<not> num_lt b a)"

text \<open>
  A field that was never assigned holds \<^verbatim>\<open>undefined\<close>: such a field has the type
  \<open>number option\<close>, with \<open>None\<close> for \<^verbatim>\<open>undefined\<close>. \<open>ToNumber\<close> is the conversion
  arithmetic applies to it, \<open>truthy\<close> is the test of \<^verbatim>\<open>!v\<close> and \<^verbatim>\<open>v || w\<close>, and
  \<open>loose_ne\<close> is \<^verbatim>\<open>v != n\<close> for a number \<open>n\<close> (\<^verbatim>\<open>undefined\<close> is loosely equal to
  no number).
\<close>

fun ToNumber :: "number option \<Rightarrow> number" where
  "ToNumber None = NaN"
| "ToNumber (Some x) = x"

fun truthy_num :: "number \<Rightarrow> bool" where
  "truthy_num (Finite a) = (a \<noteq> 0)"
| "truthy_num NegZero = False"
| "truthy_num NaN = False"
| "truthy_num _ = True"

fun truthy :: "number option \<Rightarrow> bool" where
  "truthy None = False"
| "truthy (Some x) = truthy_num x"

fun loose_ne :: "number option \<Rightarrow> number \<Rightarrow> bool" where
  "loose_ne None n = True"
| "loose_ne (Some x) n = (\<not> strict_eq x n)"

text \<open>\<^verbatim>\<open>x || 0\<close> on a number.\<close>

definition or_zero :: "number \<Rightarrow> number" where
  "or_zero x = (if truthy_num x then x else Finite 0)"

subsection \<open>Arrays of numbers\<close>

text \<open>
  \<^verbatim>\<open>Array.prototype.indexOf\<close>: the index of the first element strictly equal to \<open>x\<close>,
  or \<open>-1\<close>.
\<close>

fun indexOf :: "number list \<Rightarrow> number \<Rightarrow> int" where
  "indexOf [] x = - 1"
| "indexOf (y # ys) x =
     (if strict_eq y x then 0
      else (let r = indexOf ys x in if r = - 1 then - 1 else r + 1))"

text \<open>
  \<^verbatim>\<open>sort((a, b) => a - b)\<close>. The comparator's result \<open>v\<close> puts \<open>a\<close> after \<open>b\<close> when
  \<open>v > 0\<close>; a NaN result counts as \<open>0\<close>. The sort is an insertion sort, which is stable.
  On a list without NaN the comparator is consistent and every conforming sort returns
  this list up to the order of equal elements; with NaN in the list JavaScript leaves
  the order to the implementation.
\<close>

definition compareFn :: "number \<Rightarrow> number \<Rightarrow> number" where
  "compareFn a b = num_sub a b"

fun insert_sorted :: "number \<Rightarrow> number list \<Rightarrow> number list" where
  "insert_sorted x [] = [x]"
| "insert_sorted x (y # ys) =
     (if num_lt (Finite 0) (compareFn x y) then y # insert_sorted x ys else x # y # ys)"

fun sort_numbers :: "number list \<Rightarrow> number list" where
  "sort_numbers [] = []"
| "sort_numbers (x # xs) = insert_sorted x (sort_numbers xs)"

text \<open>Ascending order of a list of numbers, and \<open>a \<le> b\<close> on numbers other than NaN.\<close>

definition num_le :: "number \<Rightarrow> number \<Rightarrow> bool" where
  "num_le a b = (a \<noteq> NaN \<and> b \<noteq> NaN \<and> \<not> num_lt b a)"

definition ascending :: "number list \<Rightarrow> bool" where
  "ascending xs = sorted_wrt num_le xs"

subsection \<open>Values given to the inputs\<close>

text \<open>
  The inputs are bound from templates, so a setter can receive any value. A value is
  a number, \<^verbatim>\<open>undefined\<close>, \<^verbatim>\<open>null\<close>, or a value that stands for no number (an
  object, a string that is not a numeral). \<open>JNumber x\<close> is a JavaScript number \<open>x\<close>, or a
  value that stands for the number \<open>x\<close>, such as the string \<^verbatim>\<open>"0.1"\<close> for one tenth.
\<close>

datatype jsvalue = JNumber number | JUndefined | JNull | JNonNumeric

text \<open>
  Modelled from the spec: \<^verbatim>\<open>coerceNumberProperty\<close> of \<^verbatim>\<open>@angular/cdk/coercion\<close> is
  imported by the paginator and is not among the source files. The specification says
  that non-numeric or malformed inputs to numeric fields are coerced to a defined
  fallback numeric value, 0, rather than raising an error; NaN is not a number and takes
  the fallback as well. The result is a JavaScript number: a value that stands for a
  number becomes the nearest number that can be held, which for a JavaScript number is
  the number itself (lemma \<open>to_double_fixed\<close>).
\<close>

definition fallbackValue :: number where
  "fallbackValue = Finite 0"

fun Number :: "number \<Rightarrow> number" where
  "Number (Finite r) = to_double r"
| "Number x = x"

fun coerceNumberProperty :: "jsvalue \<Rightarrow> number" where
  "coerceNumberProperty (JNumber x) = (if x = NaN then fallbackValue else Number x)"
| "coerceNumberProperty _ = fallbackValue"

subsection \<open>The component\<close>

text \<open>The default page size if there is no page size and there are no page size options.\<close>

definition DEFAULT_PAGE_SIZE :: number where
  "DEFAULT_PAGE_SIZE = Finite 50"

text \<open>
  The event object. Its \<open>pageSize\<close> is read from the getter, which returns
  \<^verbatim>\<open>undefined\<close> while no page size was assigned.
\<close>

record PageEvent =
  ev_pageIndex :: number
  ev_pageSize :: "number option"
  ev_length :: number

text \<open>
  The fields of \<^verbatim>\<open>MatPaginator\<close>. \<open>fld_x\<close> is the field \<^verbatim>\<open>_x\<close> of the class.
  \<^verbatim>\<open>_initialized\<close> is \<^verbatim>\<open>undefined\<close> until \<^verbatim>\<open>ngOnInit\<close> and only ever tested for
  truth, so it is a boolean that starts false. \<open>page\<close> holds the events emitted so far and
  \<open>markForCheck_calls\<close> counts the calls of \<^verbatim>\<open>_changeDetectorRef.markForCheck()\<close>.
  The subscription \<^verbatim>\<open>_intlChanges\<close> to the labels, which the constructor opens and
  \<^verbatim>\<open>ngOnDestroy\<close> closes, reads and writes none of these fields and is left out.
\<close>

record MatPaginator =
  fld_initialized :: bool
  fld_pageIndex :: number
  fld_length :: number
  fld_pageSize :: "number option"
  fld_pageSizeOptions :: "number list"
  fld_hidePageSize :: bool
  fld_showFirstLastButtons :: bool
  fld_displayedPageSizeOptions :: "number list option"
  page :: "PageEvent list"
  markForCheck_calls :: nat

text \<open>The state after the constructor: the field initialisers of the class.\<close>

definition new_MatPaginator :: MatPaginator where
  "new_MatPaginator =
     \<lparr>fld_initialized = False, fld_pageIndex = Finite 0, fld_length = Finite 0,
      fld_pageSize = None, fld_pageSizeOptions = [], fld_hidePageSize = False,
      fld_showFirstLastButtons = False, fld_displayedPageSizeOptions = None,
      page = [], markForCheck_calls = 0\<rparr>"

text \<open>The getters.\<close>

definition pageIndex :: "MatPaginator \<Rightarrow> number" where
  "pageIndex s = fld_pageIndex s"

definition length' :: "MatPaginator \<Rightarrow> number" where
  "length' s = fld_length s"

definition pageSize :: "MatPaginator \<Rightarrow> number option" where
  "pageSize s = fld_pageSize s"

definition pageSizeOptions :: "MatPaginator \<Rightarrow> number list" where
  "pageSizeOptions s = fld_pageSizeOptions s"

definition markForCheck :: "MatPaginator \<Rightarrow> MatPaginator" where
  "markForCheck s = s\<lparr>markForCheck_calls := Suc (markForCheck_calls s)\<rparr>"

text \<open>
  \<^verbatim>\<open>_updateDisplayedPageSizeOptions\<close>. After the first step the page size is a number,
  so that the case \<open>None\<close> of the push is never taken (lemma \<open>pageSize_after_default\<close>).
\<close>

definition default_pageSize :: "MatPaginator \<Rightarrow> MatPaginator" where
  "default_pageSize s =
     (if \<not> truthy (pageSize s)
      then s\<lparr>fld_pageSize :=
             Some (if length (pageSizeOptions s) \<noteq> 0 then pageSizeOptions s ! 0
                   else DEFAULT_PAGE_SIZE)\<rparr>
      else s)"

definition push_pageSize :: "number list \<Rightarrow> number option \<Rightarrow> number list" where
  "push_pageSize d p =
     (case p of
        Some x \<Rightarrow> (if indexOf d x = - 1 then d @ [x] else d)
      | None \<Rightarrow> d)"

definition updateDisplayedPageSizeOptions :: "MatPaginator \<Rightarrow> MatPaginator" where
  "updateDisplayedPageSizeOptions s =
     (if \<not> fld_initialized s then s
      else
        (let s1 = default_pageSize s;
             d = push_pageSize (pageSizeOptions s1) (pageSize s1)
         in markForCheck (s1\<lparr>fld_displayedPageSizeOptions := Some (sort_numbers d)\<rparr>)))"

text \<open>
  The setters. The input \<^verbatim>\<open>pageSizeOptions\<close> is declared as an array: \<open>set_pageSizeOptions\<close>
  takes \<open>Some xs\<close> for an array, which is truthy even when empty, and \<open>None\<close> for
  \<^verbatim>\<open>null\<close> and \<^verbatim>\<open>undefined\<close>, which \<^verbatim>\<open>value || []\<close> replaces by the empty array.
\<close>

definition set_pageIndex :: "jsvalue \<Rightarrow> MatPaginator \<Rightarrow> MatPaginator" where
  "set_pageIndex v s = markForCheck (s\<lparr>fld_pageIndex := coerceNumberProperty v\<rparr>)"

definition set_length :: "jsvalue \<Rightarrow> MatPaginator \<Rightarrow> MatPaginator" where
  "set_length v s = markForCheck (s\<lparr>fld_length := coerceNumberProperty v\<rparr>)"

definition set_pageSize :: "jsvalue \<Rightarrow> MatPaginator \<Rightarrow> MatPaginator" where
  "set_pageSize v s =
     updateDisplayedPageSizeOptions (s\<lparr>fld_pageSize := Some (coerceNumberProperty v)\<rparr>)"

definition set_pageSizeOptions :: "jsvalue list option \<Rightarrow> MatPaginator \<Rightarrow> MatPaginator" where
  "set_pageSizeOptions v s =
     updateDisplayedPageSizeOptions
       (s\<lparr>fld_pageSizeOptions :=
            map (\<lambda>p. coerceNumberProperty p) (case v of None \<Rightarrow> [] | Some xs \<Rightarrow> xs)\<rparr>)"

definition ngOnInit :: "MatPaginator \<Rightarrow> MatPaginator" where
  "ngOnInit s = updateDisplayedPageSizeOptions (s\<lparr>fld_initialized := True\<rparr>)"

text \<open>\<^verbatim>\<open>_emitPageEvent\<close>: the event is built from the getters at the time of the call.\<close>

definition snapshot :: "MatPaginator \<Rightarrow> PageEvent" where
  "snapshot s = \<lparr>ev_pageIndex = pageIndex s, ev_pageSize = pageSize s, ev_length = length' s\<rparr>"

definition emitPageEvent :: "MatPaginator \<Rightarrow> MatPaginator" where
  "emitPageEvent s = s\<lparr>page := page s @ [snapshot s]\<rparr>"

text \<open>The queries.\<close>

definition getNumberOfPages :: "MatPaginator \<Rightarrow> number" where
  "getNumberOfPages s =
     num_sub (Math_ceil (num_div (length' s) (ToNumber (pageSize s)))) (Finite 1)"

definition hasPreviousPage :: "MatPaginator \<Rightarrow> bool" where
  "hasPreviousPage s = (num_ge (pageIndex s) (Finite 1) \<and> loose_ne (pageSize s) (Finite 0))"

definition hasNextPage :: "MatPaginator \<Rightarrow> bool" where
  "hasNextPage s =
     (let numberOfPages = getNumberOfPages s
      in num_lt (pageIndex s) numberOfPages \<and> loose_ne (pageSize s) (Finite 0))"

text \<open>
  The navigation. \<^verbatim>\<open>this.pageIndex++\<close> reads the getter, adds one and calls the setter
  with the sum; \<^verbatim>\<open>this.pageIndex--\<close> likewise.
\<close>

definition nextPage :: "MatPaginator \<Rightarrow> MatPaginator" where
  "nextPage s =
     (if \<not> hasNextPage s then s
      else emitPageEvent (set_pageIndex (JNumber (num_add (pageIndex s) (Finite 1))) s))"

definition previousPage :: "MatPaginator \<Rightarrow> MatPaginator" where
  "previousPage s =
     (if \<not> hasPreviousPage s then s
      else emitPageEvent (set_pageIndex (JNumber (num_sub (pageIndex s) (Finite 1))) s))"

definition firstPage :: "MatPaginator \<Rightarrow> MatPaginator" where
  "firstPage s =
     (if \<not> hasPreviousPage s then s
      else emitPageEvent (set_pageIndex (JNumber (Finite 0)) s))"

definition lastPage :: "MatPaginator \<Rightarrow> MatPaginator" where
  "lastPage s =
     (if \<not> hasNextPage s then s
      else emitPageEvent (set_pageIndex (JNumber (getNumberOfPages s)) s))"

text \<open>\<^verbatim>\<open>_changePageSize\<close>.\<close>

definition changePageSize :: "number \<Rightarrow> MatPaginator \<Rightarrow> MatPaginator" where
  "changePageSize newSize s =
     (let startIndex = num_mul (pageIndex s) (ToNumber (pageSize s));
          s1 = set_pageIndex (JNumber (or_zero (Math_floor (num_div startIndex newSize)))) s;
          s2 = set_pageSize (JNumber newSize) s1
      in emitPageEvent s2)"

text \<open>
  The two presentation flags. \<^verbatim>\<open>coerceBooleanProperty\<close> is imported like
  \<^verbatim>\<open>coerceNumberProperty\<close>; the setters take the boolean it returns.
\<close>

definition set_hidePageSize :: "bool \<Rightarrow> MatPaginator \<Rightarrow> MatPaginator" where
  "set_hidePageSize b s = s\<lparr>fld_hidePageSize := b\<rparr>"

definition set_showFirstLastButtons :: "bool \<Rightarrow> MatPaginator \<Rightarrow> MatPaginator" where
  "set_showFirstLastButtons b s = s\<lparr>fld_showFirstLastButtons := b\<rparr>"

subsection \<open>Histories of the component\<close>

text \<open>
  What a host can do with the component after constructing it: assign an input, run the
  initialization hook, or call an operation. \<open>run\<close> performs a list of such steps in
  order, so that \<open>run ops new_MatPaginator\<close> ranges over the states the component can be
  in.
\<close>

datatype operation =
    SetPageIndex jsvalue
  | SetLength jsvalue
  | SetPageSize jsvalue
  | SetPageSizeOptions "jsvalue list option"
  | SetHidePageSize bool
  | SetShowFirstLastButtons bool
  | NgOnInit
  | NextPage
  | PreviousPage
  | FirstPage
  | LastPage
  | ChangePageSize number

fun apply_op :: "operation \<Rightarrow> MatPaginator \<Rightarrow> MatPaginator" where
  "apply_op (SetPageIndex v) s = set_pageIndex v s"
| "apply_op (SetLength v) s = set_length v s"
| "apply_op (SetPageSize v) s = set_pageSize v s"
| "apply_op (SetPageSizeOptions v) s = set_pageSizeOptions v s"
| "apply_op (SetHidePageSize b) s = set_hidePageSize b s"
| "apply_op (SetShowFirstLastButtons b) s = set_showFirstLastButtons b s"
| "apply_op NgOnInit s = ngOnInit s"
| "apply_op NextPage s = nextPage s"
| "apply_op PreviousPage s = previousPage s"
| "apply_op FirstPage s = firstPage s"
| "apply_op LastPage s = lastPage s"
| "apply_op (ChangePageSize n) s = changePageSize n s"

fun run :: "operation list \<Rightarrow> MatPaginator \<Rightarrow> MatPaginator" where
  "run [] s = s"
| "run (x # xs) s = run xs (apply_op x s)"


text \<open>
  The invariant of the histories: the stored page size and options are JavaScript numbers
  other than NaN, nothing is derived before \<open>ngOnInit\<close>, and from then on the page size
  is a number and the displayed options are the ones derived from the current page size
  and options, and contain the page size.
\<close>

definition displayed_inv :: "MatPaginator \<Rightarrow> bool" where
  "displayed_inv s =
     (list_all (\<lambda>x. x \<noteq> NaN \<and> is_double x) (fld_pageSizeOptions s) \<and>
      (case fld_pageSize s of None \<Rightarrow> True | Some p \<Rightarrow> p \<noteq> NaN \<and> is_double p) \<and>
      (if fld_initialized s
       then (case fld_pageSize s of
               None \<Rightarrow> False
             | Some p \<Rightarrow>
                 p \<in> set (push_pageSize (fld_pageSizeOptions s) (Some p)) \<and>
                 fld_displayedPageSizeOptions s =
                   Some (sort_numbers (push_pageSize (fld_pageSizeOptions s) (Some p))))
       else fld_displayedPageSizeOptions s = None))"

section \<open>Properties\<close>

lemmas getter_defs = pageIndex_def length'_def pageSize_def pageSizeOptions_def

subsection \<open>Powers of two\<close>

lemma p2_pos [simp]: "0 < power_int (2::rat) k"
  by simp

lemma p2_less_iff: "power_int (2::rat) a < power_int 2 b \<longleftrightarrow> a < b"
proof
  assume "power_int (2::rat) a < power_int 2 b"
  show "a < b"
  proof (rule ccontr)
    assume "\<not> a < b"
    then have "power_int (2::rat) b \<le> power_int 2 a"
      by (intro power_int_increasing) simp_all
    with \<open>power_int (2::rat) a < power_int 2 b\<close> show False by simp
  qed
next
  assume "a < b"
  then show "power_int (2::rat) a < power_int 2 b"
    by (intro power_int_strict_increasing) simp_all
qed

lemma p2_le_iff: "power_int (2::rat) a \<le> power_int 2 b \<longleftrightarrow> a \<le> b"
  using p2_less_iff [of b a] by (auto simp: not_less [symmetric])

lemma p2_add: "power_int (2::rat) (a + b) = power_int 2 a * power_int 2 b"
  by (simp add: power_int_add)

lemma p2_diff: "power_int (2::rat) (a - b) = power_int 2 a / power_int 2 b"
  by (simp add: power_int_diff)

lemma p2_nat: "0 \<le> k \<Longrightarrow> power_int (2::rat) k = of_int (2 ^ nat k)"
  by (simp add: power_int_nonneg_exp)

subsection \<open>The exponent\<close>

lemma expo_bounds:
  assumes "0 < x"
  shows "power_int 2 (expo x) \<le> x" and "x < power_int 2 (expo x + 1)"
proof -
  obtain p q where pq: "quotient_of x = (p, q)"
    by (cases "quotient_of x")
  then have q: "0 < q" and x: "x = of_int p / of_int q"
    by (simp_all add: quotient_of_denom_pos quotient_of_div)
  with assms have p: "0 < p"
    by (simp add: zero_less_divide_iff)
  define d where "d = bitlen p - bitlen q"
  have bp: "1 \<le> bitlen p" and bq: "1 \<le> bitlen q"
    using p q bitlen_eq_zero_iff [of p] bitlen_eq_zero_iff [of q] bitlen_nonneg [of p]
      bitlen_nonneg [of q] by linarith+
  have "(2::int) ^ nat (bitlen p - 1) \<le> p" and "p < 2 ^ nat (bitlen p)"
    using bitlen_bounds [OF p] by simp_all
  then have "(of_int ((2::int) ^ nat (bitlen p - 1)) :: rat) \<le> of_int p"
    and "(of_int p :: rat) < of_int (2 ^ nat (bitlen p))"
    by (simp_all only: of_int_le_iff of_int_less_iff)
  then have p_lo: "power_int (2::rat) (bitlen p - 1) \<le> of_int p"
    and p_hi: "of_int p < power_int (2::rat) (bitlen p)"
    using bp p2_nat [of "bitlen p - 1"] p2_nat [of "bitlen p"] by simp_all
  have "(2::int) ^ nat (bitlen q - 1) \<le> q" and "q < 2 ^ nat (bitlen q)"
    using bitlen_bounds [OF q] by simp_all
  then have "(of_int ((2::int) ^ nat (bitlen q - 1)) :: rat) \<le> of_int q"
    and "(of_int q :: rat) < of_int (2 ^ nat (bitlen q))"
    by (simp_all only: of_int_le_iff of_int_less_iff)
  then have q_lo: "power_int (2::rat) (bitlen q - 1) \<le> of_int q"
    and q_hi: "of_int q < power_int (2::rat) (bitlen q)"
    using bq p2_nat [of "bitlen q - 1"] p2_nat [of "bitlen q"] by simp_all
  have qpos: "(0::rat) < of_int q" using q by simp
  have "x * of_int q = of_int p"
    using x qpos by simp
  have lo: "power_int 2 (d - 1) < x"
  proof -
    have "power_int (2::rat) (d - 1) * of_int q < power_int 2 (d - 1) * power_int 2 (bitlen q)"
      using q_hi by (intro mult_strict_left_mono) simp_all
    also have "\<dots> = power_int 2 (bitlen p - 1)"
      by (simp add: d_def flip: p2_add)
    also have "\<dots> \<le> x * of_int q"
      using p_lo \<open>x * of_int q = of_int p\<close> by simp
    finally show ?thesis
      using qpos by simp
  qed
  have hi: "x < power_int 2 (d + 1)"
  proof -
    have "x * of_int q < power_int 2 (bitlen p)"
      using p_hi \<open>x * of_int q = of_int p\<close> by simp
    also have "\<dots> = power_int 2 (d + 1) * power_int 2 (bitlen q - 1)"
      by (simp add: d_def flip: p2_add)
    also have "\<dots> \<le> power_int 2 (d + 1) * of_int q"
      using q_lo by (intro mult_left_mono) simp_all
    finally show ?thesis
      using qpos by simp
  qed
  have e: "expo x = (if power_int 2 d \<le> x then d else d - 1)"
    by (simp add: expo_def pq d_def)
  show "power_int 2 (expo x) \<le> x"
    using lo by (simp add: e)
  show "x < power_int 2 (expo x + 1)"
    using hi by (simp add: e)
qed

lemma expo_unique:
  assumes "power_int 2 e \<le> x" and "x < power_int 2 (e + 1)"
  shows "expo x = e"
proof -
  have "0 < x"
    using assms(1) p2_pos [of e] by linarith
  note b = expo_bounds [OF this]
  have "power_int (2::rat) e < power_int 2 (expo x + 1)"
    using assms(1) b(2) by linarith
  then have "e < expo x + 1" by (simp only: p2_less_iff)
  moreover have "power_int (2::rat) (expo x) < power_int 2 (e + 1)"
    using assms(2) b(1) by linarith
  then have "expo x < e + 1" by (simp only: p2_less_iff)
  ultimately show ?thesis by simp
qed

subsection \<open>Rounding to the nearest integer, ties to even\<close>

lemma round_half_even_of_int [simp]: "round_half_even (of_int n) = n"
  by (simp add: round_half_even_def)

lemma round_half_even_cases:
  "round_half_even x = \<lfloor>x\<rfloor> \<or> round_half_even x = \<lfloor>x\<rfloor> + 1"
  by (simp add: round_half_even_def Let_def)

lemma round_half_even_error: "\<bar>of_int (round_half_even x) - x\<bar> \<le> 1 / 2"
proof -
  have "of_int \<lfloor>x\<rfloor> \<le> x" and "x < of_int \<lfloor>x\<rfloor> + 1"
    by linarith+
  then show ?thesis
    by (auto simp: round_half_even_def Let_def abs_le_iff)
qed

lemma round_half_even_ge: "of_int n \<le> x \<Longrightarrow> n \<le> round_half_even x"
  using round_half_even_cases [of x] le_floor_iff [of n x] by linarith

lemma round_half_even_le: "x \<le> of_int n \<Longrightarrow> round_half_even x \<le> n"
proof (cases "x = of_int n")
  case True
  then show ?thesis by simp
next
  case False
  assume "x \<le> of_int n"
  with False have "x < of_int n" by simp
  then have "\<lfloor>x\<rfloor> < n" by (simp add: floor_less_iff)
  then show ?thesis
    using round_half_even_cases [of x] by linarith
qed

subsection \<open>Rounding a positive rational\<close>

lemma quantum_pos [simp]: "0 < quantum x"
  by (simp add: quantum_def)

lemma scaled_less:
  assumes "0 < x"
  shows "x / quantum x < 2 ^ 53"
proof -
  have "x < power_int 2 (expo x + 1)"
    using assms by (rule expo_bounds)
  also have "\<dots> \<le> power_int 2 (max (expo x - 52) (- 1074) + 53)"
    by (simp add: p2_le_iff)
  also have "\<dots> = quantum x * 2 ^ 53"
    by (simp add: quantum_def p2_add)
  finally show ?thesis
    by (simp add: pos_divide_less_eq mult.commute)
qed

lemma round_pos_nonneg:
  assumes "0 < x"
  shows "0 \<le> round_pos x"
proof -
  have "(0::rat) \<le> x / quantum x"
    by (rule divide_nonneg_pos) (use assms in simp_all)
  then have "of_int 0 \<le> x / quantum x"
    by simp
  then have "0 \<le> round_half_even (x / quantum x)"
    by (rule round_half_even_ge)
  then have "(0::rat) \<le> of_int (round_half_even (x / quantum x))"
    by simp
  moreover have "0 \<le> quantum x"
    by (simp add: less_imp_le)
  ultimately show ?thesis
    by (simp only: round_pos_def mult_nonneg_nonneg)
qed

lemma mantissa_le:
  assumes "0 < x"
  shows "round_half_even (x / quantum x) \<le> 2 ^ 53"
  using scaled_less [OF assms] round_half_even_le [of "x / quantum x" "2 ^ 53"]
  by simp

text \<open>A value \<open>m * 2 ^ k\<close> with \<open>0 < m < 2 ^ 53\<close> and \<open>k \<ge> -1074\<close> is left as it is.\<close>

lemma round_pos_fixed:
  assumes m: "0 < m" "m < 2 ^ 53" and k: "- 1074 \<le> k"
  shows "round_pos (of_int m * power_int 2 k) = of_int m * power_int 2 k"
proof -
  let ?x = "of_int m * power_int (2::rat) k"
  define j where "j = max (expo ?x - 52) (- 1074)"
  have x: "0 < ?x"
    using m by simp
  have "(of_int m :: rat) < of_int (2 ^ 53)"
    using m(2) by (simp only: of_int_less_iff)
  then have "?x < 2 ^ 53 * power_int 2 k"
    by simp
  also have "\<dots> = power_int 2 (k + 53)"
    by (simp add: p2_add)
  finally have "power_int (2::rat) (expo ?x) < power_int 2 (k + 53)"
    using expo_bounds(1) [OF x] by linarith
  then have "expo ?x < k + 53"
    by (simp only: p2_less_iff)
  with k have jk: "j \<le> k"
    by (simp add: j_def)
  have q: "quantum ?x = power_int 2 j"
    by (simp add: quantum_def j_def)
  have "power_int (2::rat) k = power_int 2 (k - j) * power_int 2 j"
    by (simp flip: p2_add)
  moreover have "power_int (2::rat) (k - j) = of_int (2 ^ nat (k - j))"
    using jk by (intro p2_nat) simp
  ultimately have eq: "?x = of_int (m * 2 ^ nat (k - j)) * power_int 2 j"
    by simp
  have "?x / power_int 2 j = of_int (m * 2 ^ nat (k - j)) * power_int 2 j / power_int 2 j"
    by (simp only: eq)
  also have "\<dots> = of_int (m * 2 ^ nat (k - j))"
    by simp
  finally have "round_half_even (?x / quantum ?x) = m * 2 ^ nat (k - j)"
    unfolding q by (simp only: round_half_even_of_int)
  then have "round_pos ?x = of_int (m * 2 ^ nat (k - j)) * power_int 2 j"
    by (simp only: round_pos_def q)
  also have "\<dots> = ?x"
    by (rule eq [symmetric])
  finally show ?thesis .
qed

lemma round_pos_fixed_le:
  assumes m: "0 < m" "m \<le> 2 ^ 53" and k: "- 1074 \<le> k"
  shows "round_pos (of_int m * power_int 2 k) = of_int m * power_int 2 k"
proof (cases "m = 2 ^ 53")
  case False
  with m have "m < 2 ^ 53" by simp
  with m(1) k show ?thesis by (intro round_pos_fixed)
next
  case True
  have "of_int m * power_int (2::rat) k = of_int (2 ^ 52) * power_int 2 (k + 1)"
    by (simp add: True p2_add)
  moreover have "round_pos (of_int (2 ^ 52) * power_int 2 (k + 1)) =
      of_int (2 ^ 52) * power_int 2 (k + 1)"
    using k by (intro round_pos_fixed) simp_all
  ultimately show ?thesis by simp
qed

lemma round_pos_idem:
  assumes "0 < x" and "0 < round_pos x"
  shows "round_pos (round_pos x) = round_pos x"
proof -
  define m where "m = round_half_even (x / quantum x)"
  define k where "k = max (expo x - 52) (- 1074)"
  have r: "round_pos x = of_int m * power_int 2 k"
    by (simp add: round_pos_def m_def k_def quantum_def)
  have "0 < m"
  proof (rule ccontr)
    assume "\<not> 0 < m"
    then have "of_int m \<le> (0::rat)" by simp
    then have "of_int m * power_int 2 k \<le> (0::rat)"
      by (intro mult_nonpos_nonneg) simp_all
    with assms(2) r show False by simp
  qed
  moreover have "m \<le> 2 ^ 53"
    unfolding m_def using assms(1) by (rule mantissa_le)
  moreover have "- 1074 \<le> k"
    by (simp add: k_def)
  ultimately show ?thesis
    unfolding r by (rule round_pos_fixed_le)
qed

lemma round_pos_normal_ge:
  assumes "0 < x" and "- 1074 \<le> expo x - 52"
  shows "power_int 2 (expo x) \<le> round_pos x"
proof -
  have "max (expo x - 52) (- 1074) = expo x - 52"
    using assms(2) by simp
  then have q: "quantum x = power_int 2 (expo x - 52)"
    by (simp only: quantum_def)
  have "power_int 2 (expo x) / quantum x \<le> x / quantum x"
    using expo_bounds(1) [OF assms(1)] by (intro divide_right_mono) (simp_all add: less_imp_le)
  moreover have "power_int 2 (expo x) / quantum x = of_int (2 ^ 52)"
    by (simp add: q flip: p2_diff)
  ultimately have "2 ^ 52 \<le> round_half_even (x / quantum x)"
    by (intro round_half_even_ge) simp
  then have "(of_int (2 ^ 52) :: rat) \<le> of_int (round_half_even (x / quantum x))"
    by (simp only: of_int_le_iff)
  then have "of_int (2 ^ 52) * quantum x \<le> round_pos x"
    unfolding round_pos_def by (intro mult_right_mono) (simp_all add: less_imp_le)
  moreover have "of_int (2 ^ 52) * quantum x = power_int 2 (expo x)"
    by (simp add: q p2_diff)
  ultimately show ?thesis
    by simp
qed

lemma round_pos_error:
  assumes "0 < x"
  shows "\<bar>round_pos x - x\<bar> \<le> quantum x / 2"
proof -
  have "\<bar>of_int (round_half_even (x / quantum x)) - x / quantum x\<bar> * quantum x
      \<le> 1 / 2 * quantum x"
    using round_half_even_error [of "x / quantum x"]
    by (intro mult_right_mono) (simp_all add: less_imp_le)
  moreover have "\<bar>of_int (round_half_even (x / quantum x)) - x / quantum x\<bar> * quantum x
      = \<bar>round_pos x - x\<bar>"
  proof -
    have "\<bar>of_int (round_half_even (x / quantum x)) - x / quantum x\<bar> * quantum x
        = \<bar>(of_int (round_half_even (x / quantum x)) - x / quantum x) * quantum x\<bar>"
      by (simp add: abs_mult less_imp_le)
    also have "(of_int (round_half_even (x / quantum x)) - x / quantum x) * quantum x
        = round_pos x - x"
    proof -
      have "quantum x \<noteq> 0"
        by (simp add: quantum_def)
      then show ?thesis
        by (simp add: round_pos_def left_diff_distrib)
    qed
    finally show ?thesis .
  qed
  ultimately show ?thesis
    by simp
qed

subsection \<open>Rounding a rational to a number\<close>

lemma to_double_pos:
  "0 < r \<Longrightarrow>
   to_double r = (if 2 ^ 1024 \<le> round_pos r then PosInfinity else Finite (round_pos r))"
  by (simp add: to_double_def Let_def)

lemma to_double_neg:
  "r < 0 \<Longrightarrow>
   to_double r =
     (if 2 ^ 1024 \<le> round_pos (- r) then NegInfinity
      else if round_pos (- r) = 0 then NegZero else Finite (- round_pos (- r)))"
  by (simp add: to_double_def Let_def)

lemma to_double_not_NaN [simp]: "to_double r \<noteq> NaN"
  by (simp add: to_double_def Let_def)

lemma to_double_fixed_pos:
  assumes "0 < x" and "round_pos x = x" and "x < 2 ^ 1024"
  shows "to_double x = Finite x" and "to_double (- x) = Finite (- x)"
  using assms by (simp_all add: to_double_pos to_double_neg)

text \<open>Rounding returns numbers that rounding leaves as they are.\<close>

lemma to_double_fixed: "is_double (to_double r)"
proof -
  have *: "is_double (Finite (round_pos x)) \<and> is_double (Finite (- round_pos x))"
    if "0 < x" and "\<not> 2 ^ 1024 \<le> round_pos x" and "round_pos x \<noteq> 0" for x
  proof -
    have "0 < round_pos x"
      using round_pos_nonneg [OF that(1)] that(3) by simp
    then have "round_pos (round_pos x) = round_pos x"
      using that(1) by (intro round_pos_idem)
    with \<open>0 < round_pos x\<close> that(2) show ?thesis
      by (simp add: is_double_def to_double_fixed_pos)
  qed
  consider "r = 0" | "0 < r" | "r < 0" by linarith
  then show ?thesis
  proof cases
    case 1
    then show ?thesis by (simp add: to_double_def is_double_def)
  next
    case 2
    show ?thesis
    proof (cases "round_pos r = 0")
      case True
      with 2 show ?thesis by (simp add: to_double_pos is_double_def to_double_def)
    next
      case False
      with 2 * [of r] show ?thesis by (auto simp: to_double_pos is_double_def)
    qed
  next
    case 3
    then have "0 < - r" by simp
    with 3 * [of "- r"] show ?thesis
      by (auto simp: to_double_neg is_double_def)
  qed
qed

lemma Number_fixed: "is_double x \<Longrightarrow> Number x = x"
  by (cases x) (simp_all add: is_double_def)

lemma is_double_Number [simp]: "is_double (Number x)"
proof (cases x)
  case (Finite r)
  then show ?thesis by (simp add: to_double_fixed)
qed (simp_all add: is_double_def)

text \<open>Integers up to \<open>2 ^ 53\<close> in absolute value are held exactly.\<close>

lemma round_pos_of_int:
  assumes "0 < n" and "n \<le> 2 ^ 53"
  shows "round_pos (of_int n) = of_int n"
  using round_pos_fixed_le [of n 0] assms by simp

lemma to_double_of_int:
  assumes "\<bar>n\<bar> \<le> 2 ^ 53"
  shows "to_double (of_int n) = Finite (of_int n)"
proof -
  have big: "(of_int m :: rat) < 2 ^ 1024" if "m \<le> 2 ^ 53" for m :: int
  proof -
    have "(of_int m :: rat) \<le> of_int (2 ^ 53)"
      using that by (simp only: of_int_le_iff)
    then show ?thesis by simp
  qed
  consider "n = 0" | "0 < n" | "n < 0" by linarith
  then show ?thesis
  proof cases
    case 1
    then show ?thesis by (simp add: to_double_def)
  next
    case 2
    with assms have "n \<le> 2 ^ 53" by simp
    with 2 show ?thesis
      using to_double_fixed_pos(1) [of "of_int n"] round_pos_of_int [of n] big [of n] by simp
  next
    case 3
    with assms have "0 < - n" and "- n \<le> 2 ^ 53" by simp_all
    then show ?thesis
      using to_double_fixed_pos(2) [of "of_int (- n)"] round_pos_of_int [of "- n"] big [of "- n"]
      by simp
  qed
qed

lemma to_double_numeral [simp]:
  "numeral w \<le> (2::int) ^ 53 \<Longrightarrow> to_double (numeral w) = Finite (numeral w)"
  "numeral w \<le> (2::int) ^ 53 \<Longrightarrow> to_double (- numeral w) = Finite (- numeral w)"
  using to_double_of_int [of "numeral w"] to_double_of_int [of "- numeral w"] by simp_all

lemma to_double_zero_one [simp]:
  "to_double 0 = Finite 0" "to_double 1 = Finite 1" "to_double (- 1) = Finite (- 1)"
  using to_double_of_int [of 0] to_double_of_int [of 1] to_double_of_int [of "- 1"] by simp_all

text \<open>A result of \<open>2 ^ 1024\<close> or more overflows to the infinity.\<close>

lemma to_double_overflow:
  assumes "2 ^ 1024 \<le> r"
  shows "to_double r = PosInfinity"
proof -
  have r: "0 < r"
    using assms by (rule less_le_trans [rotated]) simp
  have "power_int (2::rat) 1024 < power_int 2 (expo r + 1)"
    using assms expo_bounds(2) [OF r] by simp
  then have "1024 < expo r + 1"
    by (simp only: p2_less_iff)
  then have e: "1024 \<le> expo r"
    by simp
  then have "power_int (2::rat) 1024 \<le> power_int 2 (expo r)"
    by (simp only: p2_le_iff)
  also have "\<dots> \<le> round_pos r"
    using r e by (intro round_pos_normal_ge) simp_all
  finally show ?thesis
    using r by (simp add: to_double_pos)
qed

subsection \<open>Numbers on the grid of the smallest subnormal\<close>

lemma round_pos_mantissa:
  "round_pos x =
     of_int (round_half_even (x / quantum x)) * power_int 2 (max (expo x - 52) (- 1074))"
  by (simp only: round_pos_def quantum_def)

lemma is_double_round_pos:
  assumes "is_double (Finite a)"
  shows "0 < a \<Longrightarrow> round_pos a = a" and "a < 0 \<Longrightarrow> round_pos (- a) = - a"
proof -
  assume "0 < a"
  with assms show "round_pos a = a"
    by (simp add: is_double_def to_double_pos split: if_splits)
next
  assume "a < 0"
  with assms show "round_pos (- a) = - a"
    by (simp add: is_double_def to_double_neg split: if_splits)
qed

lemma round_pos_on_grid: "\<exists>j::int. round_pos x = of_int j * power_int 2 (- 1074)"
proof -
  define k where "k = max (expo x - 52) (- 1074)"
  define m where "m = round_half_even (x / quantum x)"
  have "0 \<le> k + 1074"
    by (simp add: k_def)
  then have "power_int (2::rat) (k + 1074) = of_int (2 ^ nat (k + 1074))"
    by (rule p2_nat)
  moreover have "power_int (2::rat) k = power_int 2 (k + 1074) * power_int 2 (- 1074)"
    by (simp only: flip: p2_add) simp
  ultimately have "round_pos x = of_int (m * 2 ^ nat (k + 1074)) * power_int 2 (- 1074)"
    by (simp only: round_pos_mantissa m_def [symmetric] k_def [symmetric]) simp
  then show ?thesis ..
qed

lemma double_on_grid:
  assumes "is_double (Finite a)"
  shows "\<exists>j::int. a = of_int j * power_int 2 (- 1074)"
proof -
  consider "a = 0" | "0 < a" | "a < 0" by linarith
  then show ?thesis
  proof cases
    case 1
    then have "a = of_int 0 * power_int 2 (- 1074)" by simp
    then show ?thesis ..
  next
    case 2
    then have "round_pos a = a"
      using assms by (intro is_double_round_pos)
    then show ?thesis
      using round_pos_on_grid [of a] by simp
  next
    case 3
    then have "round_pos (- a) = - a"
      using assms by (intro is_double_round_pos)
    then obtain j :: int where "- a = of_int j * power_int 2 (- 1074)"
      using round_pos_on_grid [of "- a"] by auto
    then have "a = of_int (- j) * power_int 2 (- 1074)"
      by (simp only: of_int_minus mult_minus_left)
    then show ?thesis ..
  qed
qed

lemma round_pos_grid_pos:
  assumes "1 \<le> j"
  shows "0 < round_pos (of_int j * power_int 2 (- 1074))"
proof -
  let ?x = "of_int j * power_int (2::rat) (- 1074)"
  have x: "0 < ?x"
    using assms by (intro mult_pos_pos) simp_all
  show ?thesis
  proof (cases "- 1074 \<le> expo ?x - 52")
    case True
    have "0 < power_int (2::rat) (expo ?x)"
      by (rule p2_pos)
    also have "\<dots> \<le> round_pos ?x"
      using x True by (rule round_pos_normal_ge)
    finally show ?thesis .
  next
    case False
    then have "max (expo ?x - 52) (- 1074) = - 1074"
      by simp
    then have q: "quantum ?x = power_int 2 (- 1074)"
      by (simp only: quantum_def)
    have "?x / quantum ?x = of_int j"
      unfolding q by (rule nonzero_mult_div_cancel_right, rule power_int_not_zero) simp
    then have "round_pos ?x = ?x"
      by (simp only: round_pos_def round_half_even_of_int q)
    with x show ?thesis by simp
  qed
qed

subsection \<open>The quotient of two integers below \<open>2 ^ 53\<close>\<close>

text \<open>
  Rounding the quotient \<open>k / n\<close> moves it by less than \<open>1 / n\<close>, and so never onto or
  across an integer.
\<close>

lemma quotient_rounding:
  fixes k n :: int
  assumes k: "0 < k" "k < 2 ^ 53" and n: "0 < n" "n \<le> 2 ^ 53"
  defines "x \<equiv> (of_int k / of_int n :: rat)"
  shows "\<exists>v. to_double x = Finite v \<and> 0 < v \<and> \<lfloor>v\<rfloor> = \<lfloor>x\<rfloor> \<and> \<lceil>v\<rceil> = \<lceil>x\<rceil>"
proof -
  have npos: "(0::rat) < of_int n" and kpos: "(0::rat) < of_int k"
    using k n by simp_all
  have x: "0 < x"
    using npos kpos by (simp add: x_def)
  have xn: "x * of_int n = of_int k"
    using npos by (simp add: x_def)
  define z where "z = \<lfloor>x\<rfloor>"
  have z: "of_int z \<le> x" "x < of_int z + 1" "0 \<le> z"
    using x by (simp_all add: z_def) linarith
  have zk: "z \<le> k"
  proof -
    have "x \<le> of_int k"
      using kpos n(1) by (simp add: x_def pos_divide_le_eq mult_le_cancel_left1 flip: of_int_1_le_iff)
    then show ?thesis
      by (simp add: z_def floor_le_iff)
  qed
  show ?thesis
  proof (cases "x = of_int z")
    case True
    with x have "0 < z" by simp
    moreover have "z \<le> 2 ^ 53" using zk k(2) by simp
    ultimately have "round_pos x = x" and "x < 2 ^ 1024"
      using round_pos_of_int [of z] True
      by (simp_all add: less_le_trans [of "of_int z" "of_int (2 ^ 53)" "2 ^ 1024"])
    with x have "to_double x = Finite x"
      by (simp add: to_double_pos)
    with x show ?thesis by blast
  next
    case False
    with z(1) have zlt: "of_int z < x" by simp
    text \<open>The distance to both neighbouring integers is at least \<open>1 / n\<close>.\<close>
    have "of_int (z * n) < (of_int k :: rat)"
      using zlt npos by (simp add: xn [symmetric])
    then have "z * n < k"
      by (simp only: of_int_less_iff)
    then have "z * n + 1 \<le> k"
      by simp
    then have "of_int (z * n + 1) \<le> (of_int k :: rat)"
      by (simp only: of_int_le_iff)
    then have "(of_int (z * n + 1) :: rat) / of_int n \<le> of_int k / of_int n"
      using npos by (intro divide_right_mono) simp_all
    moreover have "(of_int (z * n + 1) :: rat) / of_int n = of_int z + 1 / of_int n"
      using npos by (simp add: add_divide_distrib)
    ultimately have lo: "of_int z + 1 / of_int n \<le> x"
      by (simp only: x_def)
    have "(of_int k :: rat) < of_int ((z + 1) * n)"
      using z(2) npos by (simp add: xn [symmetric])
    then have "k < (z + 1) * n"
      by (simp only: of_int_less_iff)
    then have "k + 1 \<le> (z + 1) * n"
      by simp
    then have "of_int (k + 1) \<le> (of_int ((z + 1) * n) :: rat)"
      by (simp only: of_int_le_iff)
    then have "(of_int (k + 1) :: rat) / of_int n \<le> of_int ((z + 1) * n) / of_int n"
      using npos by (intro divide_right_mono) simp_all
    moreover have "(of_int (k + 1) :: rat) / of_int n = x + 1 / of_int n"
      by (simp add: add_divide_distrib x_def)
    moreover have "(of_int ((z + 1) * n) :: rat) / of_int n = of_int z + 1"
      using npos by simp
    ultimately have hi: "x + 1 / of_int n \<le> of_int z + 1"
      by (simp only:)
    text \<open>The rounding error is less than \<open>1 / n\<close>.\<close>
    have "power_int 2 (- 53) \<le> 1 / (of_int n :: rat)"
    proof -
      have "(of_int n :: rat) \<le> of_int (2 ^ 53)"
        using n(2) by (simp only: of_int_le_iff)
      then have "1 / (of_int (2 ^ 53) :: rat) \<le> 1 / of_int n"
        using npos by (intro divide_left_mono) simp_all
      then show ?thesis
        by (simp add: power_int_minus_divide)
    qed
    also have "\<dots> \<le> x"
      using lo z(3) by simp
    also have "x < power_int 2 (expo x + 1)"
      using x by (rule expo_bounds)
    finally have "- 53 < expo x + 1"
      by (simp only: p2_less_iff)
    then have "max (expo x - 52) (- 1074) = expo x - 52"
      by simp
    then have q: "quantum x = power_int 2 (expo x - 52)"
      by (simp only: quantum_def)
    have "power_int 2 (expo x) * of_int n \<le> x * of_int n"
      using expo_bounds(1) [OF x] npos by (intro mult_right_mono) simp_all
    also have "\<dots> < of_int (2 ^ 53)"
      unfolding xn using k(2) by (simp only: of_int_less_iff)
    finally have "power_int 2 (expo x) * of_int n < (2 ^ 53 :: rat)"
      by simp
    then have "power_int 2 (expo x) / 2 ^ 53 < 1 / (of_int n :: rat)"
      using npos by (simp add: field_simps)
    moreover have "quantum x / 2 = power_int 2 (expo x) / 2 ^ 53"
      by (simp add: q p2_diff)
    ultimately have err: "\<bar>round_pos x - x\<bar> < 1 / of_int n"
      using round_pos_error [OF x] by simp
    define v where "v = round_pos x"
    from err lo hi have v: "of_int z < v" "v < of_int z + 1"
      by (simp_all add: v_def abs_less_iff)
    have "v < 2 ^ 1024"
    proof -
      have "v < of_int (z + 1)" using v(2) by simp
      also have "\<dots> \<le> of_int (2 ^ 53)"
        using zk k(2) by (intro iffD2 [OF of_int_le_iff]) simp
      also have "\<dots> < (2 ^ 1024 :: rat)" by simp
      finally show ?thesis .
    qed
    with x have "to_double x = Finite v"
      by (simp add: to_double_pos v_def)
    moreover have "0 < v"
      using v(1) z(3) by (simp add: less_le_trans [of 0 "of_int z"] le_less_trans [of 0 "of_int z" v])
    moreover have "\<lfloor>v\<rfloor> = z"
      using v by (simp add: floor_eq_iff less_imp_le)
    moreover have "\<lceil>v\<rceil> = z + 1" and "\<lceil>x\<rceil> = z + 1"
      using v zlt z(2) by (simp_all add: ceiling_eq_iff less_imp_le)
    ultimately show ?thesis
      by (simp add: z_def)
  qed
qed

subsection \<open>The arithmetic of numbers\<close>

lemma is_double_simps [simp]:
  "is_double NegZero" "is_double PosInfinity" "is_double NegInfinity" "is_double NaN"
  "is_double (Finite 0)" "is_double (signed_zero b)" "is_double (signed_infinity b)"
  by (simp_all add: is_double_def signed_zero_def signed_infinity_def)

lemma is_double_to_double [simp]: "is_double (to_double r)"
  by (rule to_double_fixed)

lemma is_double_of_int: "\<bar>n\<bar> \<le> 2 ^ 53 \<Longrightarrow> is_double (Finite (of_int n))"
  by (simp add: is_double_def to_double_of_int)

lemma is_double_num_add [simp]: "is_double (num_add x y)"
  by (auto simp: num_add_def Let_def is_infinite_def)

lemma is_double_num_sub [simp]: "is_double (num_sub x y)"
  by (simp add: num_sub_def)

lemma is_double_num_mul [simp]: "is_double (num_mul x y)"
  by (simp add: num_mul_def Let_def)

lemma is_double_num_div [simp]: "is_double (num_div x y)"
  by (simp add: num_div_def Let_def)

lemma num_add_NaN [simp]: "num_add NaN y = NaN" "num_add x NaN = NaN"
  by (simp_all add: num_add_def)

lemma num_mul_NaN [simp]: "num_mul NaN y = NaN" "num_mul x NaN = NaN"
  by (simp_all add: num_mul_def)

lemma num_div_NaN [simp]: "num_div NaN y = NaN" "num_div x NaN = NaN"
  by (simp_all add: num_div_def)

lemma num_sub_NaN [simp]: "num_sub NaN y = NaN" "num_sub x NaN = NaN"
  by (simp_all add: num_sub_def)

text \<open>Integers: sums, differences and products up to \<open>2 ^ 53\<close> are exact.\<close>

lemma num_add_of_int:
  "\<bar>a + b\<bar> \<le> 2 ^ 53 \<Longrightarrow>
   num_add (Finite (of_int a)) (Finite (of_int b)) = Finite (of_int (a + b))"
  using to_double_of_int [of "a + b"]
  by (auto simp: num_add_def is_infinite_def signed_zero_def Let_def simp flip: of_int_add)

lemma num_sub_of_int:
  "\<bar>a - b\<bar> \<le> 2 ^ 53 \<Longrightarrow>
   num_sub (Finite (of_int a)) (Finite (of_int b)) = Finite (of_int (a - b))"
  using to_double_of_int [of "a - b"]
  by (auto simp: num_sub_def num_add_def is_infinite_def signed_zero_def Let_def
      simp flip: of_int_diff)

lemma num_mul_of_int:
  "0 \<le> a \<Longrightarrow> 0 \<le> b \<Longrightarrow> a * b \<le> 2 ^ 53 \<Longrightarrow>
   num_mul (Finite (of_int a)) (Finite (of_int b)) = Finite (of_int (a * b))"
  using to_double_of_int [of "a * b"]
  by (auto simp: num_mul_def is_infinite_def signed_zero_def Let_def simp flip: of_int_mult)

text \<open>Quotients of integers below \<open>2 ^ 53\<close>: floor and ceiling are those of the exact quotient.\<close>

lemma num_div_of_int:
  assumes "0 \<le> k" "k < 2 ^ 53" "0 < n" "n \<le> 2 ^ 53"
  shows "Math_floor (num_div (Finite (of_int k)) (Finite (of_int n))) = Finite (of_int (k div n))"
    and "Math_ceil (num_div (Finite (of_int k)) (Finite (of_int n))) =
      Finite (of_int \<lceil>(of_int k / of_int n :: rat)\<rceil>)"
proof -
  have d: "num_div (Finite (of_int k)) (Finite (of_int n)) =
      (if k = 0 then Finite 0 else to_double (of_int k / of_int n))"
    using assms(3) by (simp add: num_div_def is_infinite_def is_zero_def signed_zero_def Let_def)
  have "Math_floor (num_div (Finite (of_int k)) (Finite (of_int n))) = Finite (of_int (k div n))
    \<and> Math_ceil (num_div (Finite (of_int k)) (Finite (of_int n))) =
      Finite (of_int \<lceil>(of_int k / of_int n :: rat)\<rceil>)"
  proof (cases "k = 0")
    case True
    then show ?thesis
      using assms(3)
      by (simp add: num_div_def is_infinite_def is_zero_def signed_zero_def Let_def)
  next
    case False
    with assms(1) have "0 < k" by simp
    then obtain v where v: "to_double (of_int k / of_int n) = Finite v" "0 < v"
        "\<lfloor>v\<rfloor> = \<lfloor>(of_int k / of_int n :: rat)\<rfloor>" "\<lceil>v\<rceil> = \<lceil>(of_int k / of_int n :: rat)\<rceil>"
      using quotient_rounding [of k n] assms by blast
    with False show ?thesis
      by (simp add: d floor_divide_of_int_eq)
  qed
  then show "Math_floor (num_div (Finite (of_int k)) (Finite (of_int n))) = Finite (of_int (k div n))"
    and "Math_ceil (num_div (Finite (of_int k)) (Finite (of_int n))) =
      Finite (of_int \<lceil>(of_int k / of_int n :: rat)\<rceil>)"
    by simp_all
qed

subsection \<open>Comparison\<close>

lemma num_lt_irrefl [simp]: "\<not> num_lt x x"
  by (cases x) auto

lemma num_lt_not_NaN: "num_lt x y \<Longrightarrow> x \<noteq> NaN \<and> y \<noteq> NaN"
  by (cases x; cases y) auto

lemma num_lt_Finite [simp]: "num_lt (Finite a) (Finite b) \<longleftrightarrow> a < b"
  by simp


lemma num_lt_imp_le: "num_lt y x \<Longrightarrow> num_le y x"
  by (cases x; cases y) (auto simp: num_le_def)

lemma num_le_trans: "num_le x y \<Longrightarrow> num_le y z \<Longrightarrow> num_le x z"
  by (cases x; cases y; cases z) (auto simp: num_le_def)

subsection \<open>Floors of numbers\<close>

lemma big_double_is_int:
  assumes "is_double (Finite a)" and "2 ^ 53 \<le> a"
  shows "\<exists>j::int. a = of_int j"
proof -
  have a: "0 < a"
    using assms(2) by (rule less_le_trans [rotated]) simp
  define k where "k = max (expo a - 52) (- 1074)"
  have "power_int (2::rat) 53 < power_int 2 (expo a + 1)"
    using assms(2) expo_bounds(2) [OF a] by simp
  then have "53 < expo a + 1"
    by (simp only: p2_less_iff)
  then have "0 \<le> k"
    by (simp add: k_def)
  then have "power_int (2::rat) k = of_int (2 ^ nat k)"
    by (rule p2_nat)
  moreover have "a = of_int (round_half_even (a / quantum a)) * power_int 2 k"
    using is_double_round_pos(1) [OF assms(1) a] round_pos_mantissa [of a]
    by (simp only: k_def)
  ultimately have "a = of_int (round_half_even (a / quantum a) * 2 ^ nat k)"
    by simp
  then show ?thesis ..
qed

lemma is_double_neg: "is_double (Finite a) \<Longrightarrow> is_double (Finite (- a))"
proof -
  assume d: "is_double (Finite a)"
  consider "a = 0" | "0 < a" | "a < 0" by linarith
  then show ?thesis
  proof cases
    case 1
    then show ?thesis by simp
  next
    case 2
    then have "round_pos a = a" using d by (intro is_double_round_pos)
    moreover have "a < 2 ^ 1024"
      using d 2 by (simp add: is_double_def to_double_pos split: if_splits)
    ultimately show ?thesis
      using 2 by (simp add: is_double_def to_double_neg)
  next
    case 3
    then have "round_pos (- a) = - a" using d by (intro is_double_round_pos)
    moreover have "- a < 2 ^ 1024"
      using d 3 by (simp add: is_double_def to_double_neg split: if_splits)
    ultimately show ?thesis
      using 3 by (simp add: is_double_def to_double_pos)
  qed
qed

lemma is_double_Math_floor: "is_double x \<Longrightarrow> is_double (Math_floor x)"
proof (cases x)
  case (Finite a)
  assume d: "is_double x"
  consider "2 ^ 53 \<le> a" | "a \<le> - (2 ^ 53)" | "- (2 ^ 53) < a" "a < 2 ^ 53"
    by linarith
  then show ?thesis
  proof cases
    case 1
    then obtain j :: int where "a = of_int j"
      using big_double_is_int [of a] d Finite by auto
    then show ?thesis using d Finite by simp
  next
    case 2
    then have "2 ^ 53 \<le> - a" by simp
    moreover have "is_double (Finite (- a))"
      using d Finite by (simp add: is_double_neg)
    ultimately obtain j :: int where "- a = of_int j"
      using big_double_is_int [of "- a"] by auto
    then have "a = of_int (- j)" by simp
    then show ?thesis using d Finite by (simp only: Math_floor.simps floor_of_int)
  next
    case 3
    then have "of_int (- (2 ^ 53)) \<le> a" and "a < of_int (2 ^ 53)"
      by simp_all
    then have "- (2 ^ 53) \<le> \<lfloor>a\<rfloor>" and "\<lfloor>a\<rfloor> < 2 ^ 53"
      by (simp_all only: le_floor_iff floor_less_iff)
    then have "\<bar>\<lfloor>a\<rfloor>\<bar> \<le> 2 ^ 53"
      by linarith
    then show ?thesis
      using Finite by (simp add: is_double_of_int)
  qed
qed simp_all

lemma is_double_or_zero: "is_double x \<Longrightarrow> is_double (or_zero x)"
  by (simp add: or_zero_def)

subsection \<open>The comparator of the sort\<close>

lemma to_double_positive:
  assumes "r = of_int j * power_int 2 (- 1074)"
  shows "num_lt (Finite 0) (to_double r) \<longleftrightarrow> 0 < r"
proof -
  consider "r = 0" | "0 < r" | "r < 0" by linarith
  then show ?thesis
  proof cases
    case 1
    then show ?thesis by simp
  next
    case 2
    then have "0 < (of_int j :: rat)"
      using assms by (simp add: zero_less_mult_iff)
    then have "1 \<le> j" by simp
    then have "0 < round_pos r"
      unfolding assms by (rule round_pos_grid_pos)
    with 2 show ?thesis
      by (simp add: to_double_pos)
  next
    case 3
    then have "0 \<le> round_pos (- r)"
      by (intro round_pos_nonneg) simp
    with 3 show ?thesis
      by (simp add: to_double_neg)
  qed
qed

lemma grid_diff:
  assumes "is_double (Finite a)" and "is_double (Finite b)"
  shows "\<exists>j::int. a - b = of_int j * power_int 2 (- 1074)"
proof -
  obtain i j :: int where "a = of_int i * power_int 2 (- 1074)"
      and "b = of_int j * power_int 2 (- 1074)"
    using double_on_grid [OF assms(1)] double_on_grid [OF assms(2)] by auto
  then have "a - b = of_int (i - j) * power_int 2 (- 1074)"
    by (simp only: of_int_diff left_diff_distrib)
  then show ?thesis ..
qed

lemma compareFn_Finite:
  assumes "is_double (Finite a)" and "is_double (Finite b)"
  shows "num_lt (Finite 0) (compareFn (Finite a) (Finite b)) \<longleftrightarrow> b < a"
proof -
  obtain j :: int where j: "a - b = of_int j * power_int 2 (- 1074)"
    using grid_diff [OF assms] by auto
  have "value_of (Finite a) + value_of (num_neg (Finite b)) = a - b"
    by simp
  then have "compareFn (Finite a) (Finite b) =
      (if a - b = 0 then signed_zero (sign_bit (Finite a) \<and> sign_bit (num_neg (Finite b)))
       else to_double (a - b))"
    by (simp add: compareFn_def num_sub_def num_add_def is_infinite_def Let_def)
  then show ?thesis
    using to_double_positive [OF j] by (auto simp: signed_zero_def)
qed

lemma compareFn_positive:
  assumes "x \<noteq> NaN" and "y \<noteq> NaN" and "is_double x" and "is_double y"
  shows "num_lt (Finite 0) (compareFn x y) = num_lt y x"
proof -
  have z: "is_double (Finite 0)" by simp
  show ?thesis
  proof (cases x)
    case (Finite a)
    note x = this
    show ?thesis
    proof (cases y)
      case (Finite b)
      with x assms show ?thesis by (simp add: compareFn_Finite)
    next
      case NegZero
      have "compareFn (Finite a) NegZero = compareFn (Finite a) (Finite 0)"
        by (simp add: compareFn_def num_sub_def num_add_def is_infinite_def Let_def
            signed_zero_def)
      with x NegZero assms z show ?thesis by (simp add: compareFn_Finite)
    qed (use x assms in \<open>simp_all add: compareFn_def num_sub_def num_add_def is_infinite_def\<close>)
  next
    case NegZero
    note x = this
    show ?thesis
    proof (cases y)
      case (Finite b)
      have "num_lt (Finite 0) (compareFn NegZero (Finite b)) =
          num_lt (Finite 0) (compareFn (Finite 0) (Finite b))"
        by (simp add: compareFn_def num_sub_def num_add_def is_infinite_def Let_def
            signed_zero_def)
      with x Finite assms z show ?thesis by (simp add: compareFn_Finite)
    qed (use x assms in \<open>simp_all add: compareFn_def num_sub_def num_add_def is_infinite_def
        signed_zero_def\<close>)
  qed (use assms in \<open>cases y; simp add: compareFn_def num_sub_def num_add_def is_infinite_def\<close>)+
qed

subsection \<open>Coercion\<close>

lemma coerceNumberProperty_not_NaN:
  "coerceNumberProperty v \<noteq> NaN" "NaN \<noteq> coerceNumberProperty v"
proof -
  have "coerceNumberProperty v \<noteq> NaN"
  proof (cases v)
    case (JNumber x)
    then show ?thesis by (cases x) (simp_all add: fallbackValue_def)
  qed (simp_all add: fallbackValue_def)
  then show "coerceNumberProperty v \<noteq> NaN" and "NaN \<noteq> coerceNumberProperty v"
    by simp_all
qed

lemma is_double_coerceNumberProperty [simp]: "is_double (coerceNumberProperty v)"
  by (cases v) (simp_all add: fallbackValue_def)

lemma coerceNumberProperty_number:
  "x \<noteq> NaN \<Longrightarrow> is_double x \<Longrightarrow> coerceNumberProperty (JNumber x) = x"
  by (simp add: Number_fixed)

subsection \<open>The number of pages\<close>

lemma num_sub_one_of_int:
  "0 \<le> c \<Longrightarrow> c \<le> 2 ^ 53 \<Longrightarrow> num_sub (Finite (of_int c)) (Finite 1) = Finite (of_int (c - 1))"
  using num_sub_of_int [of c 1] by simp

lemma num_div_zero_left:
  "is_zero z \<Longrightarrow> num_lt (Finite 0) p \<Longrightarrow> is_zero (num_div z p)"
  by (cases p)
     (auto simp: is_zero_def num_div_def is_infinite_def signed_zero_def Let_def)

lemma Math_ceil_zero: "is_zero z \<Longrightarrow> is_zero (Math_ceil z)"
  by (auto simp: is_zero_def)

lemma num_sub_zero_one: "is_zero z \<Longrightarrow> num_sub z (Finite 1) = Finite (- 1)"
  by (auto simp: is_zero_def num_sub_def num_add_def is_infinite_def Let_def)

lemma getNumberOfPages_of_int:
  assumes "pageSize s = Some (Finite (of_int a))" and "0 < a" and "a \<le> 2 ^ 53"
    and "length' s = Finite (of_int l)" and "0 \<le> l" and "l < 2 ^ 53"
  shows "getNumberOfPages s = Finite (of_int (\<lceil>(of_int l / of_int a :: rat)\<rceil> - 1))"
proof -
  let ?c = "\<lceil>(of_int l / of_int a :: rat)\<rceil>"
  have "(0::rat) \<le> of_int l / of_int a"
    using assms(2,5) by simp
  then have c0: "0 \<le> ?c"
    by (simp only: zero_le_ceiling)
  have "(of_int l / of_int a :: rat) \<le> of_int l"
    using assms(2,5) by (simp add: divide_le_eq mult_le_cancel_left1 flip: of_int_1_le_iff)
  then have "?c \<le> l"
    by (simp only: ceiling_le_iff)
  with assms(6) have c1: "?c \<le> 2 ^ 53"
    by linarith
  show ?thesis
    using assms num_div_of_int(2) [of l a] num_sub_one_of_int [OF c0 c1]
    by (simp add: getNumberOfPages_def)
qed

text \<open>Three roundings beyond \<open>2 ^ 53\<close>, where the numbers are two apart.\<close>

lemma to_double_2_54: "to_double 18014398509481984 = Finite 18014398509481984"
  using round_pos_fixed [of "2 ^ 52" 2]
  by (simp add: to_double_pos)

lemma to_double_2_54_minus_1: "to_double 18014398509481983 = Finite 18014398509481984"
  by code_simp

lemma to_double_2_53_plus_1: "to_double 9007199254740993 = Finite 9007199254740992"
  by code_simp

lemma pages_2_54:
  "fld_length s = Finite 18014398509481984 \<Longrightarrow> fld_pageSize s = Some (Finite 1) \<Longrightarrow>
   getNumberOfPages s = Finite 18014398509481984"
  by (simp add: getNumberOfPages_def getter_defs num_div_def num_sub_def num_add_def
      is_infinite_def is_zero_def Let_def to_double_2_54 to_double_2_54_minus_1)

lemma div_2_1023_half: "num_div (Finite (2 ^ 1023)) (Finite (1 / 2)) = PosInfinity"
proof -
  have quot: "(2::rat) ^ 1023 / (1 / 2) = 2 ^ 1024"
    by (simp only: divide_divide_eq_right div_by_1 power_Suc2 [symmetric]) simp
  have big: "to_double (2 ^ 1024) = PosInfinity"
    by (rule to_double_overflow) (rule order_refl)
  have "(2::rat) ^ 1024 \<noteq> 0"
    by (rule power_not_zero) simp
  then show ?thesis
    using big
    by (simp only: num_div_def is_infinite_def is_zero_def value_of.simps Let_def quot) simp
qed

text \<open>
  Claim C2 as stated does not hold beyond \<open>2 ^ 53\<close>: for \<open>2 ^ 54\<close> items in pages of one
  item the ceiling is \<open>2 ^ 54\<close> and \<open>2 ^ 54 - 1\<close> is no JavaScript number, so the
  subtraction gives \<open>2 ^ 54\<close> again, which is not \<open>ceil(length / pageSize) - 1\<close>. For
  \<open>2 ^ 1023\<close> items in pages of half an item the division overflows and the result is
  the infinity.
\<close>

theorem getNumberOfPages_beyond_safe_integers:
  "pageSize (new_MatPaginator\<lparr>fld_length := Finite 18014398509481984,
      fld_pageSize := Some (Finite 1)\<rparr>) = Some (Finite 1)
   \<and> num_lt (Finite 0) (Finite 1)
   \<and> getNumberOfPages (new_MatPaginator\<lparr>fld_length := Finite 18014398509481984,
      fld_pageSize := Some (Finite 1)\<rparr>) = Finite 18014398509481984
   \<and> \<lceil>(18014398509481984 / 1 :: rat)\<rceil> - 1 = 18014398509481983
   \<and> num_lt (Finite 0) (Finite (1 / 2))
   \<and> getNumberOfPages (new_MatPaginator\<lparr>fld_length := Finite (2 ^ 1023),
      fld_pageSize := Some (Finite (1 / 2))\<rparr>) = PosInfinity"
proof -
  let ?s = "new_MatPaginator\<lparr>fld_length := Finite 18014398509481984,
      fld_pageSize := Some (Finite 1)\<rparr>"
  let ?t = "new_MatPaginator\<lparr>fld_length := Finite (2 ^ 1023),
      fld_pageSize := Some (Finite (1 / 2))\<rparr>"
  have c1: "pageSize ?s = Some (Finite 1)"
    by (simp add: getter_defs)
  have c2: "num_lt (Finite 0) (Finite 1)"
    by simp
  have c3: "getNumberOfPages ?s = Finite 18014398509481984"
    by (rule pages_2_54) simp_all
  have c4: "\<lceil>(18014398509481984 / 1 :: rat)\<rceil> - 1 = 18014398509481983"
    by simp
  have c5: "num_lt (Finite 0) (Finite (1 / 2))"
    by simp
  have "num_div (Finite (2 ^ 1023)) (Finite (1 / 2)) = PosInfinity"
    by (rule div_2_1023_half)
  then have c6: "getNumberOfPages ?t = PosInfinity"
    by (simp add: getNumberOfPages_def getter_defs num_sub_def num_add_def is_infinite_def)
  from c1 c2 c3 c4 c5 c6 show ?thesis
    by (intro conjI)
qed

text \<open>
  Claim C2, amended. In every state whose page size is greater than zero, \<open>getNumberOfPages\<close> is
  \<^verbatim>\<open>Math.ceil(length / pageSize) - 1\<close>, computed in the arithmetic of JavaScript numbers.
  For integers, a length \<open>0 \<le> l < 2 ^ 53\<close> and a page size \<open>0 < a \<le> 2 ^ 53\<close>, no rounding
  interferes and the result is the integer \<open>n = \<lceil>l / a\<rceil> - 1\<close>, the zero-based index of the
  last page and not a count: \<open>n * a < l \<le> (n + 1) * a\<close>. When the length is zero the
  result is \<open>-1\<close>, for every page size greater than zero.
\<close>

theorem getNumberOfPages_last_index:
  "(pageSize s = Some p \<and> num_lt (Finite 0) p \<longrightarrow>
      getNumberOfPages s = num_sub (Math_ceil (num_div (length' s) p)) (Finite 1))
   \<and> (pageSize s = Some (Finite (of_int a)) \<and> 0 < a \<and> a \<le> 2 ^ 53
        \<and> length' s = Finite (of_int l) \<and> 0 \<le> l \<and> l < 2 ^ 53 \<longrightarrow>
      getNumberOfPages s = Finite (of_int (\<lceil>(of_int l / of_int a :: rat)\<rceil> - 1))
      \<and> (\<lceil>(of_int l / of_int a :: rat)\<rceil> - 1) * a < l
      \<and> l \<le> (\<lceil>(of_int l / of_int a :: rat)\<rceil> - 1 + 1) * a)
   \<and> (pageSize s = Some p \<and> num_lt (Finite 0) p \<and> is_zero (length' s) \<longrightarrow>
      getNumberOfPages s = Finite (- 1))"
proof (intro conjI impI)
  assume "pageSize s = Some p \<and> num_lt (Finite 0) p"
  then show "getNumberOfPages s = num_sub (Math_ceil (num_div (length' s) p)) (Finite 1)"
    by (simp add: getNumberOfPages_def)
next
  assume h: "pageSize s = Some (Finite (of_int a)) \<and> 0 < a \<and> a \<le> 2 ^ 53
        \<and> length' s = Finite (of_int l) \<and> 0 \<le> l \<and> l < 2 ^ 53"
  then show "getNumberOfPages s = Finite (of_int (\<lceil>(of_int l / of_int a :: rat)\<rceil> - 1))"
    by (intro getNumberOfPages_of_int) simp_all
  let ?x = "(of_int l / of_int a :: rat)"
  from h have a: "(0::rat) < of_int a" by simp
  have "of_int \<lceil>?x\<rceil> - 1 < ?x" by linarith
  then have "(of_int \<lceil>?x\<rceil> - 1) * of_int a < (of_int l :: rat)"
    using a by (simp only: pos_less_divide_eq)
  then have "(of_int ((\<lceil>?x\<rceil> - 1) * a) :: rat) < of_int l"
    by simp
  then show "(\<lceil>?x\<rceil> - 1) * a < l"
    by (simp only: of_int_less_iff)
  have "?x \<le> of_int \<lceil>?x\<rceil>" by linarith
  then have "(of_int l :: rat) \<le> of_int \<lceil>?x\<rceil> * of_int a"
    using a by (simp only: pos_divide_le_eq)
  then have "(of_int l :: rat) \<le> of_int ((\<lceil>?x\<rceil> - 1 + 1) * a)"
    by simp
  then show "l \<le> (\<lceil>?x\<rceil> - 1 + 1) * a"
    by (simp only: of_int_le_iff)
next
  assume h: "pageSize s = Some p \<and> num_lt (Finite 0) p \<and> is_zero (length' s)"
  then have "is_zero (Math_ceil (num_div (length' s) p))"
    by (intro Math_ceil_zero num_div_zero_left) simp_all
  then have "num_sub (Math_ceil (num_div (length' s) p)) (Finite 1) = Finite (- 1)"
    by (rule num_sub_zero_one)
  with h show "getNumberOfPages s = Finite (- 1)"
    by (simp add: getNumberOfPages_def)
qed

text \<open>95 items in pages of 10: the last page has index 9. No items: \<open>-1\<close>.\<close>

theorem getNumberOfPages_last_index_witness:
  "getNumberOfPages
     (new_MatPaginator\<lparr>fld_length := Finite 95, fld_pageSize := Some (Finite 10)\<rparr>) = Finite 9
   \<and> getNumberOfPages (new_MatPaginator\<lparr>fld_pageSize := Some (Finite 10)\<rparr>) = Finite (- 1)"
proof -
  let ?s = "new_MatPaginator\<lparr>fld_length := Finite 95, fld_pageSize := Some (Finite 10)\<rparr>"
  let ?t = "new_MatPaginator\<lparr>fld_pageSize := Some (Finite 10)\<rparr>"
  have "pageSize ?s = Some (Finite (of_int 10)) \<and> (0::int) < 10 \<and> (10::int) \<le> 2 ^ 53
        \<and> length' ?s = Finite (of_int 95) \<and> (0::int) \<le> 95 \<and> (95::int) < 2 ^ 53"
    by (simp add: getter_defs)
  then have "getNumberOfPages ?s = Finite (of_int (\<lceil>(of_int 95 / of_int 10 :: rat)\<rceil> - 1))"
    using getNumberOfPages_last_index [of ?s "Finite 10" 10 95] by blast
  moreover have "\<lceil>(of_int 95 / of_int 10 :: rat)\<rceil> = 10"
    by (simp add: ceiling_eq_iff)
  moreover have "pageSize ?t = Some (Finite 10) \<and> num_lt (Finite 0) (Finite 10)
      \<and> is_zero (length' ?t)"
    by (simp add: getter_defs new_MatPaginator_def is_zero_def)
  then have "getNumberOfPages ?t = Finite (- 1)"
    using getNumberOfPages_last_index [of ?t "Finite 10" 10 95] by blast
  ultimately show ?thesis
    by simp
qed

subsection \<open>Whether there is a previous or a next page\<close>

lemma loose_ne_zero:
  "loose_ne p (Finite 0) \<longleftrightarrow> p \<noteq> Some (Finite 0) \<and> p \<noteq> Some NegZero"
proof (cases p)
  case (Some x)
  then show ?thesis by (cases x) (auto simp: strict_eq_def)
qed simp

lemma division_by_zero_not_Finite:
  assumes "is_zero z"
  shows "num_sub (Math_ceil (num_div x z)) (Finite 1) \<noteq> Finite b"
    and "num_sub (Math_ceil (num_div x z)) (Finite 1) \<noteq> NegZero"
proof -
  have "num_div x z = NaN \<or> is_infinite (num_div x z)"
    using assms
    by (auto simp: num_div_def is_zero_def is_infinite_def signed_infinity_def)
  then have "Math_ceil (num_div x z) = NaN \<or> is_infinite (Math_ceil (num_div x z))"
    by (auto simp: is_infinite_def)
  then have "num_sub (Math_ceil (num_div x z)) (Finite 1) = NaN
      \<or> is_infinite (num_sub (Math_ceil (num_div x z)) (Finite 1))"
    by (auto simp: is_infinite_def num_sub_def num_add_def)
  then show "num_sub (Math_ceil (num_div x z)) (Finite 1) \<noteq> Finite b"
    and "num_sub (Math_ceil (num_div x z)) (Finite 1) \<noteq> NegZero"
    by (auto simp: is_infinite_def)
qed

text \<open>
  Claim C3. \<open>hasPreviousPage\<close> is true exactly when the page index is at least 1 and
  the page size is not zero; \<open>hasNextPage\<close> is true exactly when the page index is less
  than \<open>getNumberOfPages\<close> and the page size is not zero. A page size is zero when it is
  the positive or the negative zero. With a page size of zero both are false, and the
  division by zero inside \<open>getNumberOfPages\<close> is no failure: it returns an infinity or
  NaN.
\<close>

theorem has_page_queries:
  "(hasPreviousPage s \<longleftrightarrow>
      num_ge (pageIndex s) (Finite 1)
      \<and> pageSize s \<noteq> Some (Finite 0) \<and> pageSize s \<noteq> Some NegZero)
   \<and> (hasNextPage s \<longleftrightarrow>
        num_lt (pageIndex s) (getNumberOfPages s)
        \<and> pageSize s \<noteq> Some (Finite 0) \<and> pageSize s \<noteq> Some NegZero)
   \<and> (pageSize s = Some (Finite 0) \<or> pageSize s = Some NegZero \<longrightarrow>
        \<not> hasPreviousPage s \<and> \<not> hasNextPage s
        \<and> (\<forall>a. getNumberOfPages s \<noteq> Finite a) \<and> getNumberOfPages s \<noteq> NegZero)"
proof (intro conjI impI allI)
  show "hasPreviousPage s \<longleftrightarrow>
      num_ge (pageIndex s) (Finite 1)
      \<and> pageSize s \<noteq> Some (Finite 0) \<and> pageSize s \<noteq> Some NegZero"
    by (simp add: hasPreviousPage_def loose_ne_zero)
  show "hasNextPage s \<longleftrightarrow>
        num_lt (pageIndex s) (getNumberOfPages s)
        \<and> pageSize s \<noteq> Some (Finite 0) \<and> pageSize s \<noteq> Some NegZero"
    by (simp add: hasNextPage_def loose_ne_zero)
next
  assume z: "pageSize s = Some (Finite 0) \<or> pageSize s = Some NegZero"
  then show "\<not> hasPreviousPage s"
    by (auto simp: hasPreviousPage_def loose_ne_zero)
  from z show "\<not> hasNextPage s"
    by (auto simp: hasNextPage_def loose_ne_zero)
  from z have zero: "is_zero (ToNumber (pageSize s))"
    by (auto simp: is_zero_def)
  then show "getNumberOfPages s \<noteq> NegZero"
    unfolding getNumberOfPages_def by (rule division_by_zero_not_Finite)
  fix a
  from zero show "getNumberOfPages s \<noteq> Finite a"
    unfolding getNumberOfPages_def by (rule division_by_zero_not_Finite)
qed

text \<open>
  Page 3 of 95 items: nothing with a page size of 0 or of the negative zero, where the
  last page index is the positive or the negative infinity; both ways with a page size
  of 10.
\<close>

theorem has_page_queries_witness:
  "\<not> hasPreviousPage (new_MatPaginator\<lparr>fld_pageIndex := Finite 3, fld_length := Finite 95,
        fld_pageSize := Some (Finite 0)\<rparr>)
   \<and> \<not> hasNextPage (new_MatPaginator\<lparr>fld_pageIndex := Finite 3, fld_length := Finite 95,
        fld_pageSize := Some (Finite 0)\<rparr>)
   \<and> getNumberOfPages (new_MatPaginator\<lparr>fld_pageIndex := Finite 3, fld_length := Finite 95,
        fld_pageSize := Some (Finite 0)\<rparr>) = PosInfinity
   \<and> \<not> hasNextPage (new_MatPaginator\<lparr>fld_pageIndex := Finite 3, fld_length := Finite 95,
        fld_pageSize := Some NegZero\<rparr>)
   \<and> getNumberOfPages (new_MatPaginator\<lparr>fld_pageIndex := Finite 3, fld_length := Finite 95,
        fld_pageSize := Some NegZero\<rparr>) = NegInfinity
   \<and> hasPreviousPage (new_MatPaginator\<lparr>fld_pageIndex := Finite 3, fld_length := Finite 95,
        fld_pageSize := Some (Finite 10)\<rparr>)
   \<and> hasNextPage (new_MatPaginator\<lparr>fld_pageIndex := Finite 3, fld_length := Finite 95,
        fld_pageSize := Some (Finite 10)\<rparr>)"
proof -
  let ?z = "new_MatPaginator\<lparr>fld_pageIndex := Finite 3, fld_length := Finite 95,
        fld_pageSize := Some (Finite 0)\<rparr>"
  let ?n = "new_MatPaginator\<lparr>fld_pageIndex := Finite 3, fld_length := Finite 95,
        fld_pageSize := Some NegZero\<rparr>"
  let ?s = "new_MatPaginator\<lparr>fld_pageIndex := Finite 3, fld_length := Finite 95,
        fld_pageSize := Some (Finite 10)\<rparr>"
  have "\<not> hasPreviousPage ?z \<and> \<not> hasNextPage ?z"
    using has_page_queries [of ?z] by (simp add: getter_defs)
  moreover have "\<not> hasNextPage ?n"
    using has_page_queries [of ?n] by (simp add: getter_defs)
  moreover have "getNumberOfPages ?z = PosInfinity \<and> getNumberOfPages ?n = NegInfinity"
    by (simp add: getNumberOfPages_def getter_defs num_div_def is_infinite_def is_zero_def
        signed_infinity_def num_sub_def num_add_def)
  moreover have pages: "getNumberOfPages ?s = Finite 9"
    using getNumberOfPages_of_int [of ?s 10 95]
    by (simp add: getter_defs ceiling_eq_iff)
  have "hasPreviousPage ?s \<and> hasNextPage ?s"
    using has_page_queries [of ?s] unfolding pages
    by (simp add: getter_defs new_MatPaginator_def num_ge_def)
  ultimately show ?thesis
    by simp
qed

subsection \<open>What the derivation of the displayed options leaves alone\<close>

lemma default_pageSize_frame [simp]:
  "fld_initialized (default_pageSize s) = fld_initialized s"
  "fld_pageIndex (default_pageSize s) = fld_pageIndex s"
  "fld_length (default_pageSize s) = fld_length s"
  "fld_pageSizeOptions (default_pageSize s) = fld_pageSizeOptions s"
  "fld_hidePageSize (default_pageSize s) = fld_hidePageSize s"
  "fld_showFirstLastButtons (default_pageSize s) = fld_showFirstLastButtons s"
  "page (default_pageSize s) = page s"
  "markForCheck_calls (default_pageSize s) = markForCheck_calls s"
  by (simp_all add: default_pageSize_def)

lemma updateDisplayed_frame [simp]:
  "fld_initialized (updateDisplayedPageSizeOptions s) = fld_initialized s"
  "fld_pageIndex (updateDisplayedPageSizeOptions s) = fld_pageIndex s"
  "fld_length (updateDisplayedPageSizeOptions s) = fld_length s"
  "fld_pageSizeOptions (updateDisplayedPageSizeOptions s) = fld_pageSizeOptions s"
  "fld_hidePageSize (updateDisplayedPageSizeOptions s) = fld_hidePageSize s"
  "fld_showFirstLastButtons (updateDisplayedPageSizeOptions s) = fld_showFirstLastButtons s"
  "page (updateDisplayedPageSizeOptions s) = page s"
  by (simp_all add: updateDisplayedPageSizeOptions_def markForCheck_def Let_def)

lemma updateDisplayed_pageSize:
  "fld_pageSize (updateDisplayedPageSizeOptions s) =
     (if fld_initialized s then fld_pageSize (default_pageSize s) else fld_pageSize s)"
  by (simp add: updateDisplayedPageSizeOptions_def markForCheck_def Let_def)

lemma updateDisplayed_displayed:
  "fld_displayedPageSizeOptions (updateDisplayedPageSizeOptions s) =
     (if fld_initialized s
      then Some (sort_numbers (push_pageSize (fld_pageSizeOptions s)
                  (fld_pageSize (default_pageSize s))))
      else fld_displayedPageSizeOptions s)"
  by (simp add: updateDisplayedPageSizeOptions_def markForCheck_def Let_def getter_defs)

lemma truthy_keeps_pageSize: "truthy (fld_pageSize s) \<Longrightarrow> default_pageSize s = s"
  by (simp add: default_pageSize_def getter_defs)

lemma pageSize_after_default: "fld_pageSize (default_pageSize s) \<noteq> None"
  by (cases "fld_pageSize s") (auto simp: default_pageSize_def getter_defs)

subsection \<open>The default page size\<close>

text \<open>
  Claim C6. If the page size is unset or a zero when \<open>ngOnInit\<close> runs the derivation, the
  page size becomes the first entry of the page size options, or the fallback
  \<open>DEFAULT_PAGE_SIZE = 50\<close> when there are none. With no options and no page size set,
  the state after \<open>ngOnInit\<close> has the page size 50 and the displayed options \<open>[50]\<close>.
\<close>

theorem default_page_size_at_init:
  "((pageSize s = None \<or> pageSize s = Some (Finite 0) \<or> pageSize s = Some NegZero) \<longrightarrow>
      pageSize (ngOnInit s) =
        Some (case pageSizeOptions s of [] \<Rightarrow> DEFAULT_PAGE_SIZE | x # _ \<Rightarrow> x))
   \<and> DEFAULT_PAGE_SIZE = Finite 50
   \<and> (pageSize s = None \<and> pageSizeOptions s = [] \<longrightarrow>
        pageSize (ngOnInit s) = Some (Finite 50)
        \<and> fld_displayedPageSizeOptions (ngOnInit s) = Some [Finite 50])"
proof (intro conjI impI)
  assume "pageSize s = None \<or> pageSize s = Some (Finite 0) \<or> pageSize s = Some NegZero"
  then have "\<not> truthy (fld_pageSize s)"
    by (auto simp: getter_defs)
  then show "pageSize (ngOnInit s) =
        Some (case pageSizeOptions s of [] \<Rightarrow> DEFAULT_PAGE_SIZE | x # _ \<Rightarrow> x)"
    by (cases "fld_pageSizeOptions s")
       (simp_all add: ngOnInit_def updateDisplayed_pageSize default_pageSize_def getter_defs)
next
  show "DEFAULT_PAGE_SIZE = Finite 50" by (simp add: DEFAULT_PAGE_SIZE_def)
next
  assume h: "pageSize s = None \<and> pageSizeOptions s = []"
  then show "pageSize (ngOnInit s) = Some (Finite 50)"
    by (simp add: ngOnInit_def updateDisplayed_pageSize default_pageSize_def getter_defs
        DEFAULT_PAGE_SIZE_def)
  from h show "fld_displayedPageSizeOptions (ngOnInit s) = Some [Finite 50]"
    by (simp add: ngOnInit_def updateDisplayed_displayed default_pageSize_def getter_defs
        DEFAULT_PAGE_SIZE_def push_pageSize_def)
qed

text \<open>
  The freshly constructed component, and one with the page size 0 and the options
  \<open>[25, 10, 50]\<close>, whose page size becomes 25.
\<close>

theorem default_page_size_at_init_witness:
  "pageSize (ngOnInit new_MatPaginator) = Some (Finite 50)
   \<and> fld_displayedPageSizeOptions (ngOnInit new_MatPaginator) = Some [Finite 50]
   \<and> pageSize (ngOnInit (new_MatPaginator\<lparr>fld_pageSize := Some (Finite 0),
        fld_pageSizeOptions := [Finite 25, Finite 10, Finite 50]\<rparr>)) = Some (Finite 25)"
proof -
  let ?s = "new_MatPaginator\<lparr>fld_pageSize := Some (Finite 0),
        fld_pageSizeOptions := [Finite 25, Finite 10, Finite 50]\<rparr>"
  have unset: "pageSize new_MatPaginator = None \<and> pageSizeOptions new_MatPaginator = []"
    by (simp add: getter_defs new_MatPaginator_def)
  have zero: "pageSize ?s = None \<or> pageSize ?s = Some (Finite 0) \<or> pageSize ?s = Some NegZero"
    by (simp add: getter_defs)
  have opts: "pageSizeOptions ?s = [Finite 25, Finite 10, Finite 50]"
    by (simp add: getter_defs)
  have "pageSize (ngOnInit new_MatPaginator) = Some (Finite 50)
      \<and> fld_displayedPageSizeOptions (ngOnInit new_MatPaginator) = Some [Finite 50]"
    using default_page_size_at_init [of new_MatPaginator] unset by blast
  moreover have "pageSize (ngOnInit ?s) =
      Some (case pageSizeOptions ?s of [] \<Rightarrow> DEFAULT_PAGE_SIZE | x # _ \<Rightarrow> x)"
    using default_page_size_at_init [of ?s] zero by blast
  ultimately show ?thesis
    unfolding opts by simp
qed

subsection \<open>Assigning the page index or the length\<close>

text \<open>
  Claim C7. Assigning \<open>pageIndex\<close> or \<open>length\<close> stores the coerced value in that field
  and calls \<open>markForCheck\<close> on the change detector, and does nothing else: no event is
  emitted, the page index is not compared with the number of pages, and the page size,
  the page size options and the displayed options stay as they are.
\<close>

theorem direct_assignment_frame:
  "set_pageIndex v s =
     s\<lparr>fld_pageIndex := coerceNumberProperty v,
       markForCheck_calls := Suc (markForCheck_calls s)\<rparr>
   \<and> set_length v s =
     s\<lparr>fld_length := coerceNumberProperty v,
       markForCheck_calls := Suc (markForCheck_calls s)\<rparr>
   \<and> page (set_pageIndex v s) = page s \<and> page (set_length v s) = page s
   \<and> pageIndex (set_pageIndex v s) = coerceNumberProperty v
   \<and> pageIndex (set_length v s) = pageIndex s
   \<and> length' (set_length v s) = coerceNumberProperty v
   \<and> length' (set_pageIndex v s) = length' s
   \<and> pageSize (set_pageIndex v s) = pageSize s \<and> pageSize (set_length v s) = pageSize s
   \<and> pageSizeOptions (set_pageIndex v s) = pageSizeOptions s
   \<and> pageSizeOptions (set_length v s) = pageSizeOptions s
   \<and> fld_displayedPageSizeOptions (set_pageIndex v s) = fld_displayedPageSizeOptions s
   \<and> fld_displayedPageSizeOptions (set_length v s) = fld_displayedPageSizeOptions s"
  by (simp add: set_pageIndex_def set_length_def markForCheck_def getter_defs)

text \<open>
  On page 5 of 95 items in pages of 10, the length is set to 3: the page index stays 5
  although the last page now has index 0, and nothing is emitted. Setting the page index
  to 40 is accepted as well.
\<close>

theorem direct_assignment_frame_witness:
  "pageIndex (set_length (JNumber (Finite 3))
      (new_MatPaginator\<lparr>fld_pageIndex := Finite 5, fld_length := Finite 95,
         fld_pageSize := Some (Finite 10)\<rparr>)) = Finite 5
   \<and> getNumberOfPages (set_length (JNumber (Finite 3))
      (new_MatPaginator\<lparr>fld_pageIndex := Finite 5, fld_length := Finite 95,
         fld_pageSize := Some (Finite 10)\<rparr>)) = Finite 0
   \<and> page (set_length (JNumber (Finite 3))
      (new_MatPaginator\<lparr>fld_pageIndex := Finite 5, fld_length := Finite 95,
         fld_pageSize := Some (Finite 10)\<rparr>)) = []
   \<and> pageIndex (set_pageIndex (JNumber (Finite 40))
      (new_MatPaginator\<lparr>fld_pageIndex := Finite 5, fld_length := Finite 95,
         fld_pageSize := Some (Finite 10)\<rparr>)) = Finite 40"
proof -
  let ?s = "new_MatPaginator\<lparr>fld_pageIndex := Finite 5, fld_length := Finite 95,
         fld_pageSize := Some (Finite 10)\<rparr>"
  have len: "set_length (JNumber (Finite 3)) ?s =
      ?s\<lparr>fld_length := coerceNumberProperty (JNumber (Finite 3)),
         markForCheck_calls := Suc (markForCheck_calls ?s)\<rparr>"
    using direct_assignment_frame [of "JNumber (Finite 3)" ?s] by blast
  have idx: "pageIndex (set_pageIndex (JNumber (Finite 40)) ?s) =
      coerceNumberProperty (JNumber (Finite 40))"
    using direct_assignment_frame [of "JNumber (Finite 40)" ?s] by blast
  have three: "coerceNumberProperty (JNumber (Finite 3)) = Finite 3"
    and forty: "coerceNumberProperty (JNumber (Finite 40)) = Finite 40"
    by simp_all
  have pages: "getNumberOfPages
      (?s\<lparr>fld_length := Finite 3, markForCheck_calls := Suc (markForCheck_calls ?s)\<rparr>) =
      Finite 0"
    using getNumberOfPages_of_int
      [of "?s\<lparr>fld_length := Finite 3, markForCheck_calls := Suc (markForCheck_calls ?s)\<rparr>"
        10 3]
    by (simp add: getter_defs ceiling_eq_iff)
  show ?thesis
    unfolding len idx three forty pages
    by (simp add: getter_defs new_MatPaginator_def)
qed

subsection \<open>Assigning the page size options\<close>

text \<open>
  Claim C10. Assigning \<open>pageSizeOptions\<close> with \<^verbatim>\<open>null\<close> or \<^verbatim>\<open>undefined\<close> gives the
  empty list; every element of an assigned list goes through \<open>coerceNumberProperty\<close>,
  which turns a value that stands for no number into the fallback 0. The list read back
  holds numbers only, none of them NaN.
\<close>

theorem pageSizeOptions_assignment:
  "pageSizeOptions (set_pageSizeOptions None s) = []
   \<and> pageSizeOptions (set_pageSizeOptions (Some vs) s) = map coerceNumberProperty vs
   \<and> coerceNumberProperty JUndefined = fallbackValue
   \<and> coerceNumberProperty JNull = fallbackValue
   \<and> coerceNumberProperty JNonNumeric = fallbackValue
   \<and> coerceNumberProperty (JNumber NaN) = fallbackValue
   \<and> fallbackValue = Finite 0
   \<and> NaN \<notin> set (pageSizeOptions (set_pageSizeOptions v s))"
proof -
  have "NaN \<notin> set (pageSizeOptions (set_pageSizeOptions v s))"
    by (cases v) (auto simp: set_pageSizeOptions_def getter_defs coerceNumberProperty_not_NaN)
  then show ?thesis
    by (simp add: set_pageSizeOptions_def getter_defs fallbackValue_def)
qed

text \<open>
  \<^verbatim>\<open>null\<close> replaces the options \<open>[5]\<close> by the empty list, and a list with three values that
  are no numbers is coerced element by element.
\<close>

theorem pageSizeOptions_assignment_witness:
  "pageSizeOptions (set_pageSizeOptions None
      (new_MatPaginator\<lparr>fld_pageSizeOptions := [Finite 5]\<rparr>)) = []
   \<and> pageSizeOptions (set_pageSizeOptions
        (Some [JNumber (Finite 25), JNonNumeric, JNumber NaN, JNull, JNumber (Finite 10)])
        new_MatPaginator) = [Finite 25, Finite 0, Finite 0, Finite 0, Finite 10]"
proof -
  have "pageSizeOptions (set_pageSizeOptions None
      (new_MatPaginator\<lparr>fld_pageSizeOptions := [Finite 5]\<rparr>)) = []"
    using pageSizeOptions_assignment [of "new_MatPaginator\<lparr>fld_pageSizeOptions := [Finite 5]\<rparr>"
      "[]" None]
    by blast
  moreover have "pageSizeOptions (set_pageSizeOptions
        (Some [JNumber (Finite 25), JNonNumeric, JNumber NaN, JNull, JNumber (Finite 10)])
        new_MatPaginator) =
      map coerceNumberProperty
        [JNumber (Finite 25), JNonNumeric, JNumber NaN, JNull, JNumber (Finite 10)]"
    using pageSizeOptions_assignment [of new_MatPaginator
      "[JNumber (Finite 25), JNonNumeric, JNumber NaN, JNull, JNumber (Finite 10)]" None]
    by blast
  ultimately show ?thesis
    by (simp add: fallbackValue_def)
qed

subsection \<open>Navigation\<close>

lemma num_add_one_not_NaN: "x \<noteq> NaN \<Longrightarrow> num_add x (Finite 1) \<noteq> NaN"
  by (cases x) (auto simp: num_add_def is_infinite_def signed_zero_def Let_def)

lemma num_sub_one_not_NaN: "x \<noteq> NaN \<Longrightarrow> num_sub x (Finite 1) \<noteq> NaN"
  by (cases x) (auto simp: num_sub_def num_add_def is_infinite_def signed_zero_def Let_def)

lemma hasNextPage_not_NaN:
  "hasNextPage s \<Longrightarrow> fld_pageIndex s \<noteq> NaN \<and> getNumberOfPages s \<noteq> NaN"
  using num_lt_not_NaN [of "pageIndex s" "getNumberOfPages s"]
  by (simp add: hasNextPage_def getter_defs)

lemma hasPreviousPage_not_NaN: "hasPreviousPage s \<Longrightarrow> fld_pageIndex s \<noteq> NaN"
  by (simp add: hasPreviousPage_def num_ge_def getter_defs)

lemma nextPage_eq:
  "hasNextPage s \<Longrightarrow>
   nextPage s =
     s\<lparr>fld_pageIndex := num_add (pageIndex s) (Finite 1),
       page := page s @ [\<lparr>ev_pageIndex = num_add (pageIndex s) (Finite 1),
                          ev_pageSize = pageSize s, ev_length = length' s\<rparr>],
       markForCheck_calls := Suc (markForCheck_calls s)\<rparr>"
  using hasNextPage_not_NaN [of s] num_add_one_not_NaN [of "fld_pageIndex s"]
  by (simp add: nextPage_def emitPageEvent_def snapshot_def set_pageIndex_def markForCheck_def
      getter_defs Number_fixed)

lemma lastPage_eq:
  "hasNextPage s \<Longrightarrow>
   lastPage s =
     s\<lparr>fld_pageIndex := getNumberOfPages s,
       page := page s @ [\<lparr>ev_pageIndex = getNumberOfPages s,
                          ev_pageSize = pageSize s, ev_length = length' s\<rparr>],
       markForCheck_calls := Suc (markForCheck_calls s)\<rparr>"
  using hasNextPage_not_NaN [of s] is_double_num_sub
  by (simp add: lastPage_def emitPageEvent_def snapshot_def set_pageIndex_def markForCheck_def
      getter_defs Number_fixed getNumberOfPages_def)

lemma previousPage_eq:
  "hasPreviousPage s \<Longrightarrow>
   previousPage s =
     s\<lparr>fld_pageIndex := num_sub (pageIndex s) (Finite 1),
       page := page s @ [\<lparr>ev_pageIndex = num_sub (pageIndex s) (Finite 1),
                          ev_pageSize = pageSize s, ev_length = length' s\<rparr>],
       markForCheck_calls := Suc (markForCheck_calls s)\<rparr>"
  using hasPreviousPage_not_NaN [of s] num_sub_one_not_NaN [of "fld_pageIndex s"]
  by (simp add: previousPage_def emitPageEvent_def snapshot_def set_pageIndex_def
      markForCheck_def getter_defs Number_fixed)

lemma firstPage_eq:
  "hasPreviousPage s \<Longrightarrow>
   firstPage s =
     s\<lparr>fld_pageIndex := Finite 0,
       page := page s @ [\<lparr>ev_pageIndex = Finite 0,
                          ev_pageSize = pageSize s, ev_length = length' s\<rparr>],
       markForCheck_calls := Suc (markForCheck_calls s)\<rparr>"
  by (simp add: firstPage_def emitPageEvent_def snapshot_def set_pageIndex_def
      markForCheck_def getter_defs)

lemma zero_pageSize_no_page:
  "pageSize s = Some (Finite 0) \<or> pageSize s = Some NegZero \<Longrightarrow>
   \<not> hasNextPage s \<and> \<not> hasPreviousPage s"
  by (auto simp: hasNextPage_def hasPreviousPage_def loose_ne_zero)

lemma navigation_noop:
  "\<not> hasNextPage s \<Longrightarrow> nextPage s = s \<and> lastPage s = s"
  "\<not> hasPreviousPage s \<Longrightarrow> previousPage s = s \<and> firstPage s = s"
  by (simp_all add: nextPage_def lastPage_def previousPage_def firstPage_def)

text \<open>
  Claim C4 as stated does not hold of \<open>nextPage\<close>: on page \<open>2 ^ 53\<close> of \<open>2 ^ 54\<close> items
  in pages of one item there is a next page, and \<open>nextPage\<close> emits an event, but
  \<open>2 ^ 53 + 1\<close> is no JavaScript number and the sum is \<open>2 ^ 53\<close>: the page index is not
  incremented.
\<close>

theorem nextPage_without_increment:
  "hasNextPage (new_MatPaginator\<lparr>fld_pageIndex := Finite 9007199254740992,
        fld_length := Finite 18014398509481984, fld_pageSize := Some (Finite 1)\<rparr>)
   \<and> pageIndex (nextPage (new_MatPaginator\<lparr>fld_pageIndex := Finite 9007199254740992,
        fld_length := Finite 18014398509481984, fld_pageSize := Some (Finite 1)\<rparr>)) =
      Finite 9007199254740992
   \<and> page (nextPage (new_MatPaginator\<lparr>fld_pageIndex := Finite 9007199254740992,
        fld_length := Finite 18014398509481984, fld_pageSize := Some (Finite 1)\<rparr>)) =
      [\<lparr>ev_pageIndex = Finite 9007199254740992, ev_pageSize = Some (Finite 1),
        ev_length = Finite 18014398509481984\<rparr>]"
proof -
  let ?s = "new_MatPaginator\<lparr>fld_pageIndex := Finite 9007199254740992,
        fld_length := Finite 18014398509481984, fld_pageSize := Some (Finite 1)\<rparr>"
  have pages: "getNumberOfPages ?s = Finite 18014398509481984"
    by (rule pages_2_54) simp_all
  have nx: "hasNextPage ?s"
    by (simp add: hasNextPage_def pages) (simp add: getter_defs loose_ne_zero)
  have sum: "num_add (pageIndex ?s) (Finite 1) = Finite 9007199254740992"
    by (simp add: getter_defs num_add_def is_infinite_def Let_def to_double_2_53_plus_1)
  show ?thesis
    using nx by (simp add: nextPage_eq sum) (simp add: getter_defs new_MatPaginator_def)
qed

text \<open>
  Claim C4, amended. Each navigation operation returns the state as it is (no field
  changes, no event) when its precondition is false. Under its precondition it writes
  the page index, emits one event and, through the setter, calls \<open>markForCheck\<close> on the
  change detector once; no other field changes. \<open>nextPage\<close> (when \<open>hasNextPage\<close>) sets
  the page index to \<^verbatim>\<open>pageIndex + 1\<close> and \<open>previousPage\<close> (when \<open>hasPreviousPage\<close>) to
  \<^verbatim>\<open>pageIndex - 1\<close>, in the arithmetic of JavaScript numbers: for an integer page index
  below \<open>2 ^ 53\<close> in absolute value these are the page index plus one and minus one.
  \<open>firstPage\<close> (when \<open>hasPreviousPage\<close>) sets it to 0 and \<open>lastPage\<close> (when
  \<open>hasNextPage\<close>) sets it to \<open>getNumberOfPages\<close>. So \<open>firstPage\<close> on page 0 and
  \<open>lastPage\<close> on the last page do nothing, and with a page size of zero all four do
  nothing.
\<close>

theorem navigation_operations:
  "(\<not> hasNextPage s \<longrightarrow> nextPage s = s \<and> lastPage s = s)
   \<and> (\<not> hasPreviousPage s \<longrightarrow> previousPage s = s \<and> firstPage s = s)
   \<and> (hasNextPage s \<longrightarrow>
        nextPage s =
          s\<lparr>fld_pageIndex := num_add (pageIndex s) (Finite 1),
            page := page s @ [\<lparr>ev_pageIndex = num_add (pageIndex s) (Finite 1),
                               ev_pageSize = pageSize s, ev_length = length' s\<rparr>],
            markForCheck_calls := Suc (markForCheck_calls s)\<rparr>
        \<and> lastPage s =
          s\<lparr>fld_pageIndex := getNumberOfPages s,
            page := page s @ [\<lparr>ev_pageIndex = getNumberOfPages s,
                               ev_pageSize = pageSize s, ev_length = length' s\<rparr>],
            markForCheck_calls := Suc (markForCheck_calls s)\<rparr>)
   \<and> (hasPreviousPage s \<longrightarrow>
        previousPage s =
          s\<lparr>fld_pageIndex := num_sub (pageIndex s) (Finite 1),
            page := page s @ [\<lparr>ev_pageIndex = num_sub (pageIndex s) (Finite 1),
                               ev_pageSize = pageSize s, ev_length = length' s\<rparr>],
            markForCheck_calls := Suc (markForCheck_calls s)\<rparr>
        \<and> firstPage s =
          s\<lparr>fld_pageIndex := Finite 0,
            page := page s @ [\<lparr>ev_pageIndex = Finite 0,
                               ev_pageSize = pageSize s, ev_length = length' s\<rparr>],
            markForCheck_calls := Suc (markForCheck_calls s)\<rparr>)
   \<and> (pageIndex s = Finite 0 \<longrightarrow> firstPage s = s)
   \<and> (pageIndex s = getNumberOfPages s \<longrightarrow> lastPage s = s)
   \<and> (pageSize s = Some (Finite 0) \<or> pageSize s = Some NegZero \<longrightarrow>
        nextPage s = s \<and> previousPage s = s \<and> firstPage s = s \<and> lastPage s = s)
   \<and> (pageIndex s = Finite (of_int i) \<and> \<bar>i\<bar> < 2 ^ 53 \<longrightarrow>
        num_add (pageIndex s) (Finite 1) = Finite (of_int (i + 1))
        \<and> num_sub (pageIndex s) (Finite 1) = Finite (of_int (i - 1)))"
proof (intro conjI impI)
  assume "\<not> hasNextPage s"
  then show "nextPage s = s" and "lastPage s = s"
    by (simp_all add: nextPage_def lastPage_def)
next
  assume "\<not> hasPreviousPage s"
  then show "previousPage s = s" and "firstPage s = s"
    by (simp_all add: previousPage_def firstPage_def)
next
  assume h: "hasNextPage s"
  then show "nextPage s =
          s\<lparr>fld_pageIndex := num_add (pageIndex s) (Finite 1),
            page := page s @ [\<lparr>ev_pageIndex = num_add (pageIndex s) (Finite 1),
                               ev_pageSize = pageSize s, ev_length = length' s\<rparr>],
            markForCheck_calls := Suc (markForCheck_calls s)\<rparr>"
    by (rule nextPage_eq)
  from h show "lastPage s =
          s\<lparr>fld_pageIndex := getNumberOfPages s,
            page := page s @ [\<lparr>ev_pageIndex = getNumberOfPages s,
                               ev_pageSize = pageSize s, ev_length = length' s\<rparr>],
            markForCheck_calls := Suc (markForCheck_calls s)\<rparr>"
    by (rule lastPage_eq)
next
  assume h: "hasPreviousPage s"
  then show "previousPage s =
          s\<lparr>fld_pageIndex := num_sub (pageIndex s) (Finite 1),
            page := page s @ [\<lparr>ev_pageIndex = num_sub (pageIndex s) (Finite 1),
                               ev_pageSize = pageSize s, ev_length = length' s\<rparr>],
            markForCheck_calls := Suc (markForCheck_calls s)\<rparr>"
    by (rule previousPage_eq)
  from h show "firstPage s =
          s\<lparr>fld_pageIndex := Finite 0,
            page := page s @ [\<lparr>ev_pageIndex = Finite 0,
                               ev_pageSize = pageSize s, ev_length = length' s\<rparr>],
            markForCheck_calls := Suc (markForCheck_calls s)\<rparr>"
    by (rule firstPage_eq)
next
  assume "pageIndex s = Finite 0"
  then show "firstPage s = s"
    by (simp add: firstPage_def hasPreviousPage_def num_ge_def)
next
  assume "pageIndex s = getNumberOfPages s"
  then show "lastPage s = s"
    by (simp add: lastPage_def hasNextPage_def)
next
  assume "pageSize s = Some (Finite 0) \<or> pageSize s = Some NegZero"
  then have "\<not> hasNextPage s \<and> \<not> hasPreviousPage s"
    by (rule zero_pageSize_no_page)
  then show "nextPage s = s" and "previousPage s = s" and "firstPage s = s" and "lastPage s = s"
    by (simp_all add: nextPage_def previousPage_def firstPage_def lastPage_def)
next
  assume h: "pageIndex s = Finite (of_int i) \<and> \<bar>i\<bar> < 2 ^ 53"
  then have "\<bar>i + 1\<bar> \<le> 2 ^ 53" and "\<bar>i - 1\<bar> \<le> 2 ^ 53"
    by linarith+
  then show "num_add (pageIndex s) (Finite 1) = Finite (of_int (i + 1))"
    and "num_sub (pageIndex s) (Finite 1) = Finite (of_int (i - 1))"
    using h num_add_of_int [of i 1] num_sub_of_int [of i 1] by simp_all
qed

text \<open>
  95 items in pages of 10, on page 0: \<open>nextPage\<close> goes to page 1 and \<open>lastPage\<close> to page 9,
  each with one event; \<open>firstPage\<close> and \<open>previousPage\<close> do nothing.
\<close>

theorem navigation_operations_witness:
  "nextPage (new_MatPaginator\<lparr>fld_length := Finite 95, fld_pageSize := Some (Finite 10)\<rparr>) =
     new_MatPaginator\<lparr>fld_length := Finite 95, fld_pageSize := Some (Finite 10),
       fld_pageIndex := Finite 1,
       page := [\<lparr>ev_pageIndex = Finite 1, ev_pageSize = Some (Finite 10),
                 ev_length = Finite 95\<rparr>],
       markForCheck_calls := 1\<rparr>
   \<and> lastPage (new_MatPaginator\<lparr>fld_length := Finite 95, fld_pageSize := Some (Finite 10)\<rparr>) =
     new_MatPaginator\<lparr>fld_length := Finite 95, fld_pageSize := Some (Finite 10),
       fld_pageIndex := Finite 9,
       page := [\<lparr>ev_pageIndex = Finite 9, ev_pageSize = Some (Finite 10),
                 ev_length = Finite 95\<rparr>],
       markForCheck_calls := 1\<rparr>
   \<and> firstPage (new_MatPaginator\<lparr>fld_length := Finite 95, fld_pageSize := Some (Finite 10)\<rparr>) =
     new_MatPaginator\<lparr>fld_length := Finite 95, fld_pageSize := Some (Finite 10)\<rparr>
   \<and> previousPage
       (new_MatPaginator\<lparr>fld_length := Finite 95, fld_pageSize := Some (Finite 10)\<rparr>) =
     new_MatPaginator\<lparr>fld_length := Finite 95, fld_pageSize := Some (Finite 10)\<rparr>"
proof -
  let ?s = "new_MatPaginator\<lparr>fld_length := Finite 95, fld_pageSize := Some (Finite 10)\<rparr>"
  have n: "getNumberOfPages ?s = Finite 9"
    using getNumberOfPages_of_int [of ?s 10 95] by (simp add: getter_defs ceiling_eq_iff)
  have nx: "hasNextPage ?s"
    by (simp add: hasNextPage_def n) (simp add: getter_defs new_MatPaginator_def loose_ne_zero)
  have one: "num_add (pageIndex ?s) (Finite 1) = Finite 1"
    using num_add_of_int [of 0 1] by (simp add: getter_defs new_MatPaginator_def)
  have pr: "\<not> hasPreviousPage ?s"
    by (simp add: hasPreviousPage_def getter_defs new_MatPaginator_def num_ge_def)
  have "nextPage ?s =
          ?s\<lparr>fld_pageIndex := num_add (pageIndex ?s) (Finite 1),
            page := page ?s @ [\<lparr>ev_pageIndex = num_add (pageIndex ?s) (Finite 1),
                               ev_pageSize = pageSize ?s, ev_length = length' ?s\<rparr>],
            markForCheck_calls := Suc (markForCheck_calls ?s)\<rparr>"
    using navigation_operations [of ?s] nx by blast
  moreover have "lastPage ?s =
          ?s\<lparr>fld_pageIndex := getNumberOfPages ?s,
            page := page ?s @ [\<lparr>ev_pageIndex = getNumberOfPages ?s,
                               ev_pageSize = pageSize ?s, ev_length = length' ?s\<rparr>],
            markForCheck_calls := Suc (markForCheck_calls ?s)\<rparr>"
    using navigation_operations [of ?s] nx by blast
  moreover have "firstPage ?s = ?s \<and> previousPage ?s = ?s"
    using navigation_operations [of ?s] pr by blast
  ultimately show ?thesis
    unfolding n one by (simp add: getter_defs new_MatPaginator_def)
qed

subsection \<open>Changing the page size\<close>

lemma or_zero_not_NaN [simp]: "or_zero x \<noteq> NaN"
  by (cases x) (simp_all add: or_zero_def)

lemma or_zero_Finite [simp]: "or_zero (Finite a) = Finite a"
  by (simp add: or_zero_def)

lemma or_zero_NaN [simp]: "or_zero NaN = Finite 0"
  by (simp add: or_zero_def)

lemma truthy_positive: "num_lt (Finite 0) n \<Longrightarrow> truthy_num n \<and> n \<noteq> NaN"
  by (cases n) auto

lemma changePageSize_pageIndex:
  "pageIndex (changePageSize n s) =
     or_zero (Math_floor (num_div (num_mul (pageIndex s) (ToNumber (pageSize s))) n))"
proof -
  let ?x = "or_zero (Math_floor (num_div (num_mul (pageIndex s) (ToNumber (pageSize s))) n))"
  have "is_double ?x"
    by (intro is_double_or_zero is_double_Math_floor is_double_num_div)
  then have "coerceNumberProperty (JNumber ?x) = ?x"
    by (intro coerceNumberProperty_number) simp_all
  then show ?thesis
    by (simp add: changePageSize_def emitPageEvent_def set_pageSize_def set_pageIndex_def
        markForCheck_def getter_defs Let_def)
qed

lemma changePageSize_pageSize:
  "num_lt (Finite 0) n \<Longrightarrow> is_double n \<Longrightarrow> pageSize (changePageSize n s) = Some n"
  using truthy_positive [of n]
  by (simp add: changePageSize_def emitPageEvent_def set_pageSize_def set_pageIndex_def
      markForCheck_def getter_defs Let_def updateDisplayed_pageSize truthy_keeps_pageSize
      Number_fixed)

lemma changePageSize_length: "length' (changePageSize n s) = length' s"
  by (simp add: changePageSize_def emitPageEvent_def set_pageSize_def set_pageIndex_def
      markForCheck_def getter_defs Let_def)


lemma changePageSize_page:
  "page (changePageSize n s) = page s @ [snapshot (changePageSize n s)]"
  by (simp add: changePageSize_def emitPageEvent_def snapshot_def set_pageSize_def
      set_pageIndex_def markForCheck_def getter_defs Let_def)


lemma changePageSize_of_int:
  assumes "pageIndex s = Finite (of_int i)" and "pageSize s = Some (Finite (of_int a))"
    and "0 \<le> i" and "0 \<le> a" and "i * a < 2 ^ 53" and "0 < n" and "n \<le> 2 ^ 53"
  shows "pageIndex (changePageSize (Finite (of_int n)) s) = Finite (of_int (i * a div n))"
proof -
  have "num_mul (pageIndex s) (ToNumber (pageSize s)) = Finite (of_int (i * a))"
    using assms by (simp add: num_mul_of_int)
  moreover have "0 \<le> i * a"
    using assms(3,4) by simp
  ultimately show ?thesis
    using num_div_of_int(1) [of "i * a" n] assms(5,6,7)
    by (simp add: changePageSize_pageIndex)
qed







subsection \<open>The change notification\<close>

text \<open>
  Claim C8. When its precondition holds, each of \<open>nextPage\<close>, \<open>previousPage\<close>,
  \<open>firstPage\<close> and \<open>lastPage\<close> appends exactly one event to the events emitted before,
  and \<open>changePageSize\<close> always does. The event holds the page index, the page size and
  the length of the state the operation returns: the snapshot is taken after the change.
  When the precondition fails the operation is a no-op and emits nothing.
\<close>

theorem one_event_after_the_change:
  "(hasNextPage s \<longrightarrow>
      page (nextPage s) =
        page s @ [\<lparr>ev_pageIndex = pageIndex (nextPage s), ev_pageSize = pageSize (nextPage s),
                    ev_length = length' (nextPage s)\<rparr>]
      \<and> page (lastPage s) =
        page s @ [\<lparr>ev_pageIndex = pageIndex (lastPage s), ev_pageSize = pageSize (lastPage s),
                    ev_length = length' (lastPage s)\<rparr>])
   \<and> (hasPreviousPage s \<longrightarrow>
      page (previousPage s) =
        page s @ [\<lparr>ev_pageIndex = pageIndex (previousPage s),
                    ev_pageSize = pageSize (previousPage s),
                    ev_length = length' (previousPage s)\<rparr>]
      \<and> page (firstPage s) =
        page s @ [\<lparr>ev_pageIndex = pageIndex (firstPage s), ev_pageSize = pageSize (firstPage s),
                    ev_length = length' (firstPage s)\<rparr>])
   \<and> (\<not> hasNextPage s \<longrightarrow> page (nextPage s) = page s \<and> page (lastPage s) = page s)
   \<and> (\<not> hasPreviousPage s \<longrightarrow>
        page (previousPage s) = page s \<and> page (firstPage s) = page s)
   \<and> page (changePageSize n s) =
        page s @ [\<lparr>ev_pageIndex = pageIndex (changePageSize n s),
                    ev_pageSize = pageSize (changePageSize n s),
                    ev_length = length' (changePageSize n s)\<rparr>]"
proof (intro conjI impI)
  assume h: "hasNextPage s"
  then show "page (nextPage s) =
        page s @ [\<lparr>ev_pageIndex = pageIndex (nextPage s), ev_pageSize = pageSize (nextPage s),
                    ev_length = length' (nextPage s)\<rparr>]"
    by (simp add: nextPage_eq) (simp add: getter_defs)
  from h show "page (lastPage s) =
        page s @ [\<lparr>ev_pageIndex = pageIndex (lastPage s), ev_pageSize = pageSize (lastPage s),
                    ev_length = length' (lastPage s)\<rparr>]"
    by (simp add: lastPage_eq) (simp add: getter_defs)
next
  assume h: "hasPreviousPage s"
  then show "page (previousPage s) =
        page s @ [\<lparr>ev_pageIndex = pageIndex (previousPage s),
                    ev_pageSize = pageSize (previousPage s),
                    ev_length = length' (previousPage s)\<rparr>]"
    by (simp add: previousPage_eq) (simp add: getter_defs)
  from h show "page (firstPage s) =
        page s @ [\<lparr>ev_pageIndex = pageIndex (firstPage s), ev_pageSize = pageSize (firstPage s),
                    ev_length = length' (firstPage s)\<rparr>]"
    by (simp add: firstPage_eq) (simp add: getter_defs)
next
  assume "\<not> hasNextPage s"
  then show "page (nextPage s) = page s" and "page (lastPage s) = page s"
    by (simp_all add: navigation_noop)
next
  assume "\<not> hasPreviousPage s"
  then show "page (previousPage s) = page s" and "page (firstPage s) = page s"
    by (simp_all add: navigation_noop)
next
  show "page (changePageSize n s) =
        page s @ [\<lparr>ev_pageIndex = pageIndex (changePageSize n s),
                    ev_pageSize = pageSize (changePageSize n s),
                    ev_length = length' (changePageSize n s)\<rparr>]"
    using changePageSize_page [of n s] by (simp add: snapshot_def)
qed

text \<open>
  In pages of 10 over 95 items, from page 3: each of the four navigation operations and
  \<open>changePageSize\<close> emits one event with the page index it has set. On the fresh
  component, where no page size is set, \<open>nextPage\<close> and \<open>previousPage\<close> emit nothing.
\<close>

theorem one_event_after_the_change_witness:
  "page (nextPage (new_MatPaginator\<lparr>fld_pageIndex := Finite 3, fld_length := Finite 95,
       fld_pageSize := Some (Finite 10)\<rparr>)) =
     [\<lparr>ev_pageIndex = Finite 4, ev_pageSize = Some (Finite 10), ev_length = Finite 95\<rparr>]
   \<and> page (lastPage (new_MatPaginator\<lparr>fld_pageIndex := Finite 3, fld_length := Finite 95,
       fld_pageSize := Some (Finite 10)\<rparr>)) =
     [\<lparr>ev_pageIndex = Finite 9, ev_pageSize = Some (Finite 10), ev_length = Finite 95\<rparr>]
   \<and> page (previousPage (new_MatPaginator\<lparr>fld_pageIndex := Finite 3, fld_length := Finite 95,
       fld_pageSize := Some (Finite 10)\<rparr>)) =
     [\<lparr>ev_pageIndex = Finite 2, ev_pageSize = Some (Finite 10), ev_length = Finite 95\<rparr>]
   \<and> page (firstPage (new_MatPaginator\<lparr>fld_pageIndex := Finite 3, fld_length := Finite 95,
       fld_pageSize := Some (Finite 10)\<rparr>)) =
     [\<lparr>ev_pageIndex = Finite 0, ev_pageSize = Some (Finite 10), ev_length = Finite 95\<rparr>]
   \<and> page (changePageSize (Finite 5) (new_MatPaginator\<lparr>fld_pageIndex := Finite 3,
       fld_length := Finite 95, fld_pageSize := Some (Finite 10)\<rparr>)) =
     [\<lparr>ev_pageIndex = Finite 6, ev_pageSize = Some (Finite 5), ev_length = Finite 95\<rparr>]
   \<and> page (nextPage new_MatPaginator) = []
   \<and> page (previousPage new_MatPaginator) = []"
proof -
  let ?s = "new_MatPaginator\<lparr>fld_pageIndex := Finite 3, fld_length := Finite 95,
       fld_pageSize := Some (Finite 10)\<rparr>"
  let ?u = "new_MatPaginator"
  have n: "getNumberOfPages ?s = Finite 9"
    using getNumberOfPages_of_int [of ?s 10 95] by (simp add: getter_defs ceiling_eq_iff)
  have nx: "hasNextPage ?s"
    by (simp add: hasNextPage_def n) (simp add: getter_defs loose_ne_zero)
  have pr: "hasPreviousPage ?s"
    by (simp add: hasPreviousPage_def getter_defs loose_ne_zero num_ge_def)
  have nnx: "\<not> hasNextPage ?u" and npr: "\<not> hasPreviousPage ?u"
    by (simp_all add: hasNextPage_def hasPreviousPage_def getter_defs new_MatPaginator_def
        loose_ne_zero getNumberOfPages_def num_ge_def)
  have plus: "num_add (pageIndex ?s) (Finite 1) = Finite 4"
    using num_add_of_int [of 3 1] by (simp add: getter_defs)
  have minus: "num_sub (pageIndex ?s) (Finite 1) = Finite 2"
    using num_sub_of_int [of 3 1] by (simp add: getter_defs)
  have i1: "pageIndex (nextPage ?s) = Finite 4 \<and> pageSize (nextPage ?s) = Some (Finite 10)
      \<and> length' (nextPage ?s) = Finite 95"
    using nx by (simp add: nextPage_eq plus) (simp add: getter_defs new_MatPaginator_def)
  have i2: "pageIndex (lastPage ?s) = Finite 9 \<and> pageSize (lastPage ?s) = Some (Finite 10)
      \<and> length' (lastPage ?s) = Finite 95"
    using nx by (simp add: lastPage_eq n) (simp add: getter_defs new_MatPaginator_def)
  have i3: "pageIndex (previousPage ?s) = Finite 2
      \<and> pageSize (previousPage ?s) = Some (Finite 10)
      \<and> length' (previousPage ?s) = Finite 95"
    using pr by (simp add: previousPage_eq minus) (simp add: getter_defs new_MatPaginator_def)
  have i4: "pageIndex (firstPage ?s) = Finite 0 \<and> pageSize (firstPage ?s) = Some (Finite 10)
      \<and> length' (firstPage ?s) = Finite 95"
    using pr by (simp add: firstPage_eq) (simp add: getter_defs new_MatPaginator_def)
  have "pageIndex (changePageSize (Finite (of_int 5)) ?s) = Finite (of_int (3 * 10 div 5))"
    by (rule changePageSize_of_int) (simp_all add: getter_defs)
  moreover have "pageSize (changePageSize (Finite 5) ?s) = Some (Finite 5)"
    using is_double_of_int [of 5] by (intro changePageSize_pageSize) simp_all
  ultimately have i5: "pageIndex (changePageSize (Finite 5) ?s) = Finite 6
      \<and> pageSize (changePageSize (Finite 5) ?s) = Some (Finite 5)
      \<and> length' (changePageSize (Finite 5) ?s) = Finite 95"
    by (simp add: changePageSize_length) (simp add: getter_defs new_MatPaginator_def)
  have p0: "page ?s = []" "page ?u = []"
    by (simp_all add: new_MatPaginator_def)
  have "page (nextPage ?s) =
        page ?s @ [\<lparr>ev_pageIndex = pageIndex (nextPage ?s), ev_pageSize = pageSize (nextPage ?s),
                    ev_length = length' (nextPage ?s)\<rparr>]
      \<and> page (lastPage ?s) =
        page ?s @ [\<lparr>ev_pageIndex = pageIndex (lastPage ?s), ev_pageSize = pageSize (lastPage ?s),
                    ev_length = length' (lastPage ?s)\<rparr>]"
    using one_event_after_the_change [of ?s "Finite 5"] nx by blast
  moreover have "page (previousPage ?s) =
        page ?s @ [\<lparr>ev_pageIndex = pageIndex (previousPage ?s),
                    ev_pageSize = pageSize (previousPage ?s),
                    ev_length = length' (previousPage ?s)\<rparr>]
      \<and> page (firstPage ?s) =
        page ?s @ [\<lparr>ev_pageIndex = pageIndex (firstPage ?s),
                    ev_pageSize = pageSize (firstPage ?s),
                    ev_length = length' (firstPage ?s)\<rparr>]"
    using one_event_after_the_change [of ?s "Finite 5"] pr by blast
  moreover have "page (changePageSize (Finite 5) ?s) =
        page ?s @ [\<lparr>ev_pageIndex = pageIndex (changePageSize (Finite 5) ?s),
                    ev_pageSize = pageSize (changePageSize (Finite 5) ?s),
                    ev_length = length' (changePageSize (Finite 5) ?s)\<rparr>]"
    using one_event_after_the_change [of ?s "Finite 5"] by blast
  moreover have "page (nextPage ?u) = page ?u"
    using one_event_after_the_change [of ?u "Finite 5"] nnx by blast
  moreover have "page (previousPage ?u) = page ?u"
    using one_event_after_the_change [of ?u "Finite 5"] npr by blast
  ultimately show ?thesis
    by (simp only: i1 i2 i3 i4 i5 p0 append_Nil simp_thms)
qed

subsection \<open>The displayed page size options\<close>

lemma is_double_numeral [simp]:
  "numeral w \<le> (2::int) ^ 53 \<Longrightarrow> is_double (Finite (numeral w))"
  by (simp add: is_double_def)

lemma set_insert_sorted: "set (insert_sorted x ys) = insert x (set ys)"
  by (induction ys) auto

lemma set_sort_numbers: "set (sort_numbers xs) = set xs"
  by (induction xs) (auto simp: set_insert_sorted)

lemma ascending_insert_sorted:
  assumes "x \<noteq> NaN" and "is_double x" and "\<forall>y\<in>set ys. y \<noteq> NaN \<and> is_double y"
    and "ascending ys"
  shows "ascending (insert_sorted x ys)"
  using assms(3,4)
proof (induction ys)
  case Nil
  then show ?case by (simp add: ascending_def)
next
  case (Cons y ys)
  from Cons.prems have y: "y \<noteq> NaN" "is_double y"
    and ys: "\<forall>z\<in>set ys. z \<noteq> NaN \<and> is_double z" by auto
  from Cons.prems have asc: "ascending ys" and le: "\<forall>z\<in>set ys. num_le y z"
    by (auto simp: ascending_def)
  have cmp: "num_lt (Finite 0) (compareFn x y) = num_lt y x"
    using assms(1) y(1) assms(2) y(2) by (rule compareFn_positive)
  show ?case
  proof (cases "num_lt y x")
    case True
    then have "num_le y x" by (rule num_lt_imp_le)
    with le have "\<forall>z\<in>set (insert_sorted x ys). num_le y z"
      by (simp add: set_insert_sorted)
    moreover have "ascending (insert_sorted x ys)"
      using Cons.IH ys asc by simp
    ultimately show ?thesis
      using True by (simp add: cmp ascending_def)
  next
    case False
    then have xy: "num_le x y" using assms(1) y(1) by (simp add: num_le_def)
    with le have "\<forall>z\<in>set ys. num_le x z"
      by (blast intro: num_le_trans)
    with xy le asc False show ?thesis
      by (simp add: cmp ascending_def)
  qed
qed

lemma ascending_sort_numbers:
  "\<forall>x\<in>set xs. x \<noteq> NaN \<and> is_double x \<Longrightarrow> ascending (sort_numbers xs)"
proof (induction xs)
  case Nil
  then show ?case by (simp add: ascending_def)
next
  case (Cons x xs)
  then have "x \<noteq> NaN" and "is_double x"
    and "\<forall>y\<in>set (sort_numbers xs). y \<noteq> NaN \<and> is_double y"
    and "ascending (sort_numbers xs)"
    by (auto simp: set_sort_numbers)
  then show ?case
    by (simp add: ascending_insert_sorted)
qed

text \<open>
  \<^verbatim>\<open>indexOf\<close> compares with \<^verbatim>\<open>===\<close>, for which the two zeros are equal: an element found
  for a value other than zero is that value.
\<close>

lemma strict_eq_truthy: "strict_eq y x \<Longrightarrow> truthy_num x \<Longrightarrow> y = x"
  by (cases x; cases y) (auto simp: strict_eq_def)

lemma indexOf_found: "indexOf d x \<noteq> - 1 \<Longrightarrow> truthy_num x \<Longrightarrow> x \<in> set d"
  by (induction d) (auto simp: Let_def dest: strict_eq_truthy split: if_splits)

lemma set_push_pageSize_subset: "set (push_pageSize d (Some x)) \<subseteq> insert x (set d)"
  by (auto simp: push_pageSize_def)

lemma push_pageSize_keeps: "set d \<subseteq> set (push_pageSize d p)"
  by (auto simp: push_pageSize_def split: option.splits)

lemma push_pageSize_contains:
  "truthy_num x \<or> x \<in> set d \<Longrightarrow> x \<in> set (push_pageSize d (Some x))"
  using indexOf_found [of d x] push_pageSize_keeps [of d "Some x"]
  by (auto simp: push_pageSize_def)

lemma default_pageSize_cases:
  "fld_pageSize (default_pageSize s) = Some p \<Longrightarrow>
   (fld_pageSize s = Some p \<and> truthy_num p) \<or> p \<in> set (fld_pageSizeOptions s)
   \<or> p = DEFAULT_PAGE_SIZE"
  by (cases "fld_pageSizeOptions s"; cases "fld_pageSize s")
     (auto simp: default_pageSize_def getter_defs split: if_splits)

lemma displayed_inv_update:
  assumes "\<forall>x\<in>set (fld_pageSizeOptions s). x \<noteq> NaN \<and> is_double x"
    and "\<And>p. fld_pageSize s = Some p \<Longrightarrow> p \<noteq> NaN \<and> is_double p"
    and "\<not> fld_initialized s \<Longrightarrow> fld_displayedPageSizeOptions s = None"
  shows "displayed_inv (updateDisplayedPageSizeOptions s)"
proof (cases "fld_initialized s")
  case False
  with assms show ?thesis
    by (auto simp: displayed_inv_def updateDisplayedPageSizeOptions_def list_all_iff
        split: option.splits)
next
  case True
  obtain p where p: "fld_pageSize (default_pageSize s) = Some p"
    using pageSize_after_default [of s] by auto
  from default_pageSize_cases [OF p]
  have good: "p \<noteq> NaN \<and> is_double p"
    and mem: "truthy_num p \<or> p \<in> set (fld_pageSizeOptions s)"
    using assms(1,2) by (auto simp: DEFAULT_PAGE_SIZE_def)
  from mem have "p \<in> set (push_pageSize (fld_pageSizeOptions s) (Some p))"
    by (rule push_pageSize_contains)
  with True p good assms(1) show ?thesis
    by (simp add: displayed_inv_def updateDisplayed_pageSize updateDisplayed_displayed
        list_all_iff)
qed

lemma displayed_inv_new: "displayed_inv new_MatPaginator"
  by (simp add: displayed_inv_def new_MatPaginator_def)

lemma displayed_inv_frame:
  "displayed_inv (s\<lparr>fld_pageIndex := i\<rparr>) = displayed_inv s"
  "displayed_inv (s\<lparr>fld_length := l\<rparr>) = displayed_inv s"
  "displayed_inv (s\<lparr>fld_hidePageSize := b\<rparr>) = displayed_inv s"
  "displayed_inv (s\<lparr>fld_showFirstLastButtons := b\<rparr>) = displayed_inv s"
  "displayed_inv (s\<lparr>page := es\<rparr>) = displayed_inv s"
  "displayed_inv (s\<lparr>markForCheck_calls := k\<rparr>) = displayed_inv s"
  by (simp_all add: displayed_inv_def split: option.split)

lemma displayed_inv_setters:
  "displayed_inv s \<Longrightarrow> displayed_inv (set_pageIndex v s)"
  "displayed_inv s \<Longrightarrow> displayed_inv (set_length v s)"
  "displayed_inv s \<Longrightarrow> displayed_inv (emitPageEvent s)"
  by (simp_all add: set_pageIndex_def set_length_def emitPageEvent_def markForCheck_def
      displayed_inv_frame)

lemma displayed_inv_set_pageSize: "displayed_inv s \<Longrightarrow> displayed_inv (set_pageSize v s)"
  unfolding set_pageSize_def
  by (rule displayed_inv_update)
     (auto simp: displayed_inv_def coerceNumberProperty_not_NaN list_all_iff
       split: if_splits)

lemma displayed_inv_set_pageSizeOptions:
  "displayed_inv s \<Longrightarrow> displayed_inv (set_pageSizeOptions v s)"
  unfolding set_pageSizeOptions_def
  by (rule displayed_inv_update)
     (auto simp: displayed_inv_def coerceNumberProperty_not_NaN list_all_iff
       split: if_splits)

lemma displayed_inv_ngOnInit: "displayed_inv s \<Longrightarrow> displayed_inv (ngOnInit s)"
  unfolding ngOnInit_def
  by (rule displayed_inv_update)
     (auto simp: displayed_inv_def list_all_iff split: if_splits)

lemma displayed_inv_apply_op: "displayed_inv s \<Longrightarrow> displayed_inv (apply_op x s)"
proof (cases x)
  case (ChangePageSize n)
  assume "displayed_inv s"
  then show ?thesis
    unfolding ChangePageSize apply_op.simps changePageSize_def Let_def
    by (intro displayed_inv_setters displayed_inv_set_pageSize)
qed (simp_all add: displayed_inv_setters displayed_inv_set_pageSize
      displayed_inv_set_pageSizeOptions displayed_inv_ngOnInit displayed_inv_frame
      set_hidePageSize_def set_showFirstLastButtons_def
      nextPage_def previousPage_def firstPage_def lastPage_def)

lemma displayed_inv_run: "displayed_inv s \<Longrightarrow> displayed_inv (run ops s)"
  by (induction ops arbitrary: s) (simp_all add: displayed_inv_apply_op)

lemmas derivation_defs =
  ngOnInit_def set_pageSize_def set_pageSizeOptions_def new_MatPaginator_def
  updateDisplayedPageSizeOptions_def default_pageSize_def push_pageSize_def getter_defs
  markForCheck_def strict_eq_def compareFn_positive DEFAULT_PAGE_SIZE_def

text \<open>
  Claim C5. In every state the component reaches from its constructor, once \<open>ngOnInit\<close>
  has run the displayed options contain the current page size and are in ascending
  numeric order; they are the list derived from the current page size and page size
  options, so every assignment of either has derived them again before it returns.
  Before \<open>ngOnInit\<close> nothing is derived, whatever was assigned. With the options
  \<open>[25, 10, 50]\<close> and the page size 10 the displayed options are \<open>[10, 25, 50]\<close>.
\<close>

theorem displayed_options_invariant:
  "(fld_initialized (run ops new_MatPaginator) \<longrightarrow>
      (\<exists>d p. fld_displayedPageSizeOptions (run ops new_MatPaginator) = Some d
         \<and> pageSize (run ops new_MatPaginator) = Some p
         \<and> p \<in> set d \<and> ascending d
         \<and> d = sort_numbers (push_pageSize (pageSizeOptions (run ops new_MatPaginator))
                 (Some p))))
   \<and> (\<not> fld_initialized (run ops new_MatPaginator) \<longrightarrow>
        fld_displayedPageSizeOptions (run ops new_MatPaginator) = None)
   \<and> fld_displayedPageSizeOptions
        (run [SetPageSizeOptions (Some [JNumber (Finite 25), JNumber (Finite 10),
                JNumber (Finite 50)]),
              SetPageSize (JNumber (Finite 10)), NgOnInit] new_MatPaginator) =
      Some [Finite 10, Finite 25, Finite 50]"
proof (intro conjI impI)
  let ?s = "run ops new_MatPaginator"
  have inv: "displayed_inv ?s"
    by (rule displayed_inv_run) (rule displayed_inv_new)
  {
    assume init: "fld_initialized ?s"
    with inv obtain p where p: "fld_pageSize ?s = Some p" and good: "p \<noteq> NaN" "is_double p"
      and mem: "p \<in> set (push_pageSize (fld_pageSizeOptions ?s) (Some p))"
      by (auto simp: displayed_inv_def split: option.splits)
    from inv init p have d: "fld_displayedPageSizeOptions ?s =
        Some (sort_numbers (push_pageSize (fld_pageSizeOptions ?s) (Some p)))"
      by (simp add: displayed_inv_def)
    from inv good
    have "\<forall>x\<in>set (push_pageSize (fld_pageSizeOptions ?s) (Some p)). x \<noteq> NaN \<and> is_double x"
      using set_push_pageSize_subset [of "fld_pageSizeOptions ?s" p]
      by (auto simp: displayed_inv_def list_all_iff)
    then have "ascending (sort_numbers (push_pageSize (fld_pageSizeOptions ?s) (Some p)))"
      by (rule ascending_sort_numbers)
    moreover have "p \<in> set (sort_numbers (push_pageSize (fld_pageSizeOptions ?s) (Some p)))"
      using mem by (simp add: set_sort_numbers)
    ultimately show "\<exists>d p. fld_displayedPageSizeOptions ?s = Some d
         \<and> pageSize ?s = Some p \<and> p \<in> set d \<and> ascending d
         \<and> d = sort_numbers (push_pageSize (pageSizeOptions ?s) (Some p))"
      using p d by (simp add: getter_defs)
  }
  {
    assume "\<not> fld_initialized ?s"
    with inv show "fld_displayedPageSizeOptions ?s = None"
      by (simp add: displayed_inv_def)
  }
  show "fld_displayedPageSizeOptions
        (run [SetPageSizeOptions (Some [JNumber (Finite 25), JNumber (Finite 10),
                JNumber (Finite 50)]),
              SetPageSize (JNumber (Finite 10)), NgOnInit] new_MatPaginator) =
      Some [Finite 10, Finite 25, Finite 50]"
    by (simp add: derivation_defs)
qed

text \<open>
  The options \<open>[25, 10, 50]\<close> and the page size 10 are assigned and then \<open>ngOnInit\<close>
  runs: before it no list is derived, after it the list is \<open>[10, 25, 50]\<close>. Assigning
  the page size 100 and then the options \<open>[25, 5]\<close> after \<open>ngOnInit\<close> leaves the list
  \<open>[5, 25, 100]\<close>.
\<close>

theorem displayed_options_invariant_witness:
  "fld_initialized
     (run [SetPageSizeOptions (Some [JNumber (Finite 25), JNumber (Finite 10),
             JNumber (Finite 50)]),
           SetPageSize (JNumber (Finite 10)), NgOnInit] new_MatPaginator)
   \<and> fld_displayedPageSizeOptions
       (run [SetPageSizeOptions (Some [JNumber (Finite 25), JNumber (Finite 10),
               JNumber (Finite 50)]),
             SetPageSize (JNumber (Finite 10)), NgOnInit] new_MatPaginator) =
      Some [Finite 10, Finite 25, Finite 50]
   \<and> fld_displayedPageSizeOptions
       (run [SetPageSizeOptions (Some [JNumber (Finite 25), JNumber (Finite 10),
               JNumber (Finite 50)]),
             SetPageSize (JNumber (Finite 10))] new_MatPaginator) = None
   \<and> fld_displayedPageSizeOptions
       (run [NgOnInit, SetPageSize (JNumber (Finite 100)),
             SetPageSizeOptions (Some [JNumber (Finite 25), JNumber (Finite 5)])]
          new_MatPaginator) = Some [Finite 5, Finite 25, Finite 100]"
proof -
  let ?before = "[SetPageSizeOptions (Some [JNumber (Finite 25), JNumber (Finite 10),
               JNumber (Finite 50)]), SetPageSize (JNumber (Finite 10))]"
  have "fld_initialized (run (?before @ [NgOnInit]) new_MatPaginator)"
    by (simp add: ngOnInit_def)
  moreover have "\<not> fld_initialized (run ?before new_MatPaginator)"
    by (simp add: set_pageSize_def set_pageSizeOptions_def new_MatPaginator_def)
  then have "fld_displayedPageSizeOptions (run ?before new_MatPaginator) = None"
    using displayed_options_invariant [of ?before] by blast
  moreover have "fld_displayedPageSizeOptions (run (?before @ [NgOnInit]) new_MatPaginator) =
      Some [Finite 10, Finite 25, Finite 50]"
    using displayed_options_invariant [of ?before] by simp
  moreover have "fld_displayedPageSizeOptions
       (run [NgOnInit, SetPageSize (JNumber (Finite 100)),
             SetPageSizeOptions (Some [JNumber (Finite 25), JNumber (Finite 5)])]
          new_MatPaginator) = Some [Finite 5, Finite 25, Finite 100]"
    by (simp add: derivation_defs)
  ultimately show ?thesis
    by simp
qed

subsection \<open>The range of the page index\<close>






















end
